theory Spec2Isabelle
  imports Complex_Main "HOL-Library.Word" "HOL-Library.List_Lexorder"
begin

unbundle bit_operations_syntax

section \<open>The QRIS / EMV payload codec of \<^verbatim>\<open>src/utils/qris.ts\<close>\<close>

text \<open>
  The codec is four TypeScript functions: \<^verbatim>\<open>parseEmv\<close>, \<^verbatim>\<open>buildEmv\<close> (with its
  helper \<^verbatim>\<open>buildValue\<close>), \<^verbatim>\<open>crc16Ccitt\<close> and \<^verbatim>\<open>generateDynamicQRISPayload\<close>.
  They are embedded below together with the parts of the ECMAScript library they call
  (\<^verbatim>\<open>slice\<close>, \<^verbatim>\<open>parseInt\<close>, \<^verbatim>\<open>padStart\<close>, \<^verbatim>\<open>toString\<close>, \<^verbatim>\<open>toFixed\<close>, property
  enumeration order, \<^verbatim>\<open>sort\<close>), each following the ECMAScript definition of the
  operation.
\<close>

subsection \<open>Strings and numbers\<close>

text \<open>
  A JavaScript string is a sequence of 16-bit code units. String literals of the source
  are written \<open>js ''...''\<close>.
\<close>

type_synonym jschar = "16 word"
type_synonym jsstring = "jschar list"

definition js :: "string \<Rightarrow> jsstring" where
  "js s = map of_char s"

text \<open>
  The cursor \<^verbatim>\<open>i\<close> and the length \<^verbatim>\<open>len\<close> of the parser are JavaScript numbers. The
  only values they take are integers and \<^verbatim>\<open>NaN\<close> (\<^verbatim>\<open>parseInt\<close> of a text with no
  digits); negative zero behaves as zero everywhere it is used here.
\<close>

datatype number = NaN | Num int

fun num_add :: "number \<Rightarrow> number \<Rightarrow> number" where
  "num_add (Num a) (Num b) = Num (a + b)"
| "num_add _ _ = NaN"

fun num_lt :: "number \<Rightarrow> number \<Rightarrow> bool" where
  "num_lt (Num a) (Num b) = (a < b)"
| "num_lt _ _ = False"

fun num_le :: "number \<Rightarrow> number \<Rightarrow> bool" where
  "num_le (Num a) (Num b) = (a \<le> b)"
| "num_le _ _ = False"

text \<open>\<^verbatim>\<open>ToIntegerOrInfinity\<close>: \<^verbatim>\<open>NaN\<close> becomes 0.\<close>

fun toIntegerOrInfinity :: "number \<Rightarrow> int" where
  "toIntegerOrInfinity NaN = 0"
| "toIntegerOrInfinity (Num a) = a"

text \<open>
  \<^verbatim>\<open>String.prototype.slice(start, end)\<close>: a negative index counts from the end of the
  string, both indices are clamped to the string, and the result is empty when the start
  is not before the end.
\<close>

definition slice :: "jsstring \<Rightarrow> number \<Rightarrow> number \<Rightarrow> jsstring" where
  "slice s start end =
     (let len = int (length s);
          intStart = toIntegerOrInfinity start;
          from = (if intStart < 0 then max (len + intStart) 0 else min intStart len);
          intEnd = toIntegerOrInfinity end;
          to = (if intEnd < 0 then max (len + intEnd) 0 else min intEnd len)
      in take (nat (to - from)) (drop (nat from) s))"

text \<open>
  \<^verbatim>\<open>Number.prototype.toString(radix)\<close> of a non-negative integer: its digits, with
  lowercase letters from ten on.
\<close>

definition digit_char :: "nat \<Rightarrow> jschar" where
  "digit_char d = (if d < 10 then of_nat (48 + d) else of_nat (87 + d))"

fun toStringRadix :: "nat \<Rightarrow> nat \<Rightarrow> jsstring" where
  "toStringRadix r n =
     (if n < r \<or> r < 2 then [digit_char n]
      else toStringRadix r (n div r) @ [digit_char (n mod r)])"

declare toStringRadix.simps [simp del]

definition padStart :: "nat \<Rightarrow> jschar \<Rightarrow> jsstring \<Rightarrow> jsstring" where
  "padStart n c s = replicate (n - length s) c @ s"

text \<open>\<^verbatim>\<open>const padLen = (n: number) => n.toString().padStart(2, '0')\<close>\<close>

definition padLen :: "nat \<Rightarrow> jsstring" where
  "padLen n = padStart 2 0x30 (toStringRadix 10 n)"

text \<open>
  \<^verbatim>\<open>parseInt(s, 10)\<close>: leading white space is skipped, one sign is read, then the
  longest run of decimal digits; with no digit the result is \<^verbatim>\<open>NaN\<close>.
\<close>

definition isWhiteSpace :: "jschar \<Rightarrow> bool" where
  "isWhiteSpace c \<longleftrightarrow>
     c = 0x09 \<or> c = 0x0A \<or> c = 0x0B \<or> c = 0x0C \<or> c = 0x0D \<or> c = 0x20 \<or> c = 0xA0 \<or>
     c = 0x1680 \<or> (0x2000 \<le> c \<and> c \<le> 0x200A) \<or> c = 0x2028 \<or> c = 0x2029 \<or>
     c = 0x202F \<or> c = 0x205F \<or> c = 0x3000 \<or> c = 0xFEFF"

definition isDigit :: "jschar \<Rightarrow> bool" where
  "isDigit c \<longleftrightarrow> 0x30 \<le> c \<and> c \<le> 0x39"

definition digitVal :: "jschar \<Rightarrow> nat" where
  "digitVal c = unat c - 48"

definition decimalValue :: "jsstring \<Rightarrow> nat" where
  "decimalValue Z = foldl (\<lambda>a c. 10 * a + digitVal c) 0 Z"

definition parseInt :: "jsstring \<Rightarrow> number" where
  "parseInt inputString =
     (let S = dropWhile isWhiteSpace inputString;
          sign = (if S \<noteq> [] \<and> hd S = 0x2D then - 1 else 1);
          S' = (if S \<noteq> [] \<and> (hd S = 0x2B \<or> hd S = 0x2D) then tl S else S);
          Z = takeWhile isDigit S'
      in if Z = [] then NaN else Num (sign * int (decimalValue Z)))"

subsection \<open>The checksum: \<^verbatim>\<open>crc16Ccitt\<close>\<close>

text \<open>
  \<^verbatim>\<open>
  export const crc16Ccitt = (str: string): string => {
    let crc = 0xffff;
    for (let i = 0; i < str.length; i++) {
      crc ^= str.charCodeAt(i) << 8;
      for (let j = 0; j < 8; j++) {
        if ((crc & 0x8000) !== 0) crc = (crc << 1) ^ 0x1021;
        else crc <<= 1;
        crc &= 0xffff;
      }
    }
    return crc.toString(16).padStart(4, '0');
  };
  \<close>
  The bitwise operators of JavaScript work on 32-bit integers, so the register is a
  \<open>32 word\<close>. \<open>crc_step\<close> is one turn of the inner loop, \<open>crc_char\<close> one turn of the
  outer loop.
\<close>

definition crc_step :: "32 word \<Rightarrow> 32 word" where
  "crc_step crc =
     (if crc AND 0x8000 \<noteq> 0 then push_bit 1 crc XOR 0x1021 else push_bit 1 crc) AND 0xffff"

definition crc_char :: "32 word \<Rightarrow> jschar \<Rightarrow> 32 word" where
  "crc_char crc c = (crc_step ^^ 8) (crc XOR push_bit 8 (ucast c))"

definition crc16Ccitt :: "jsstring \<Rightarrow> jsstring" where
  "crc16Ccitt str = padStart 4 0x30 (toStringRadix 16 (unat (foldl crc_char 0xffff str)))"

definition isLowerHex :: "jschar \<Rightarrow> bool" where
  "isLowerHex c \<longleftrightarrow> (0x30 \<le> c \<and> c \<le> 0x39) \<or> (0x61 \<le> c \<and> c \<le> 0x66)"

subsection \<open>The tree: \<^verbatim>\<open>EmvMap\<close>\<close>

text \<open>
  \<^verbatim>\<open>export type EmvMap = Record<string, string | EmvMap>;\<close>

  A value is a string or a nested object. An object is modelled by the list of its
  entries in the order in which JavaScript enumerates them (\<^verbatim>\<open>Object.entries\<close>): first
  the keys that are array indices (canonical decimal numerals below \<open>2^32 - 1\<close>, such as
  \<^verbatim>\<open>"26"\<close> or \<^verbatim>\<open>"62"\<close>, but not \<^verbatim>\<open>"01"\<close>) in ascending numeric order, then all other
  keys in the order of their creation. \<open>obj_set\<close> is the assignment \<^verbatim>\<open>map[k] = v\<close>: an
  existing key keeps its place, a new key is put where the enumeration order wants it.
\<close>

datatype EmvNode = Leaf jsstring | Composite "(jsstring \<times> EmvNode) list"

type_synonym EmvMap = "(jsstring \<times> EmvNode) list"

definition toArrayIndex :: "jsstring \<Rightarrow> nat option" where
  "toArrayIndex k =
     (if k \<noteq> [] \<and> list_all isDigit k \<and> (length k = 1 \<or> hd k \<noteq> 0x30) \<and>
         decimalValue k < 2 ^ 32 - 1
      then Some (decimalValue k) else None)"

fun insert_index :: "nat \<Rightarrow> jsstring \<times> 'a \<Rightarrow> (jsstring \<times> 'a) list \<Rightarrow> (jsstring \<times> 'a) list" where
  "insert_index n kv [] = [kv]"
| "insert_index n kv (e # m) =
     (case toArrayIndex (fst e) of
        Some n' \<Rightarrow> if n' < n then e # insert_index n kv m else kv # e # m
      | None \<Rightarrow> kv # e # m)"

definition obj_set :: "(jsstring \<times> 'a) list \<Rightarrow> jsstring \<Rightarrow> 'a \<Rightarrow> (jsstring \<times> 'a) list" where
  "obj_set m k v =
     (if k \<in> fst ` set m then map (\<lambda>e. if fst e = k then (k, v) else e) m
      else case toArrayIndex k of
             Some n \<Rightarrow> insert_index n (k, v) m
           | None \<Rightarrow> m @ [(k, v)])"

text \<open>\<^verbatim>\<open>map[k]\<close>: \<open>None\<close> stands for \<^verbatim>\<open>undefined\<close>.\<close>

definition obj_get :: "(jsstring \<times> 'a) list \<Rightarrow> jsstring \<Rightarrow> 'a option" where
  "obj_get m k = map_of m k"

subsection \<open>The parser: \<^verbatim>\<open>parseEmv\<close>\<close>

text \<open>
  \<^verbatim>\<open>
  export const parseEmv = (payload: string): EmvMap => {
    let i = 0;
    const map: EmvMap = {};
    while (i < payload.length) {
      const tag = payload.slice(i, i + 2); i += 2;
      if (!/^[0-9A-Za-z]{2}$/.test(tag)) break;
      const len = parseInt(payload.slice(i, i + 2), 10); i += 2;
      const value = payload.slice(i, i + len); i += len;
      if (tag === '62' || (parseInt(tag, 10) >= 26 && parseInt(tag, 10) <= 51)) {
        map[tag] = parseEmv(value);
      } else {
        map[tag] = value;
      }
      if (tag === '63') break;
    }
    return map;
  };
  \<close>
  The state of the loop is the cursor \<^verbatim>\<open>i\<close> and the object \<^verbatim>\<open>map\<close>. Nothing bounds the
  number of turns of the loop (the cursor moves back when \<^verbatim>\<open>len\<close> is negative), so the
  loop is a partial function: \<open>None\<close> means that the call does not return.
\<close>

definition isAlnum :: "jschar \<Rightarrow> bool" where
  "isAlnum c \<longleftrightarrow>
     (0x30 \<le> c \<and> c \<le> 0x39) \<or> (0x41 \<le> c \<and> c \<le> 0x5A) \<or> (0x61 \<le> c \<and> c \<le> 0x7A)"

text \<open>\<^verbatim>\<open>/^[0-9A-Za-z]{2}$/.test(tag)\<close>\<close>

definition tagPattern :: "jsstring \<Rightarrow> bool" where
  "tagPattern tag \<longleftrightarrow> length tag = 2 \<and> list_all isAlnum tag"

text \<open>\<^verbatim>\<open>tag === '62' || (parseInt(tag, 10) >= 26 && parseInt(tag, 10) <= 51)\<close>\<close>

definition isCompositeTag :: "jsstring \<Rightarrow> bool" where
  "isCompositeTag tag \<longleftrightarrow>
     tag = js ''62'' \<or> (num_le (Num 26) (parseInt tag) \<and> num_le (parseInt tag) (Num 51))"

partial_function (option) parseEmv_loop :: "jsstring \<Rightarrow> number \<Rightarrow> EmvMap \<Rightarrow> EmvMap option" where
  "parseEmv_loop payload i m =
     (if \<not> num_lt i (Num (int (length payload))) then Some m
      else
        let tag = slice payload i (num_add i (Num 2));
            i1 = num_add i (Num 2)
        in
          if \<not> tagPattern tag then Some m
          else
            let len = parseInt (slice payload i1 (num_add i1 (Num 2)));
                i2 = num_add i1 (Num 2);
                value = slice payload i2 (num_add i2 len);
                i3 = num_add i2 len
            in
              Option.bind
                (if isCompositeTag tag
                 then Option.bind (parseEmv_loop value (Num 0) []) (\<lambda>sub. Some (Composite sub))
                 else Some (Leaf value))
                (\<lambda>node.
                   let m' = obj_set m tag node
                   in if tag = js ''63'' then Some m' else parseEmv_loop payload i3 m'))"

declare parseEmv_loop.simps [code]

definition parseEmv :: "jsstring \<Rightarrow> EmvMap option" where
  "parseEmv payload = parseEmv_loop payload (Num 0) []"

subsection \<open>The builder: \<^verbatim>\<open>buildValue\<close> and \<^verbatim>\<open>buildEmv\<close>\<close>

text \<open>
  \<^verbatim>\<open>
  const buildValue = (val: string | EmvMap): string => {
    if (typeof val === 'string') return val;
    let out = '';
    for (const [t, v] of Object.entries(val)) {
      const vStr = buildValue(v);
      out += `${t}${padLen(vStr.length)}${vStr}`;
    }
    return out;
  };
  \<close>
\<close>

fun buildValue :: "EmvNode \<Rightarrow> jsstring" where
  "buildValue (Leaf s) = s"
| "buildValue (Composite val) =
     concat (map (\<lambda>e. fst e @ padLen (length (buildValue (snd e))) @ buildValue (snd e)) val)"

text \<open>One field \<^verbatim>\<open>`${tag}${padLen(vStr.length)}${vStr}`\<close>, as \<^verbatim>\<open>buildValue\<close> and \<^verbatim>\<open>buildEmv\<close> emit it.\<close>

definition field :: "jsstring \<times> EmvNode \<Rightarrow> jsstring" where
  "field e = fst e @ padLen (length (buildValue (snd e))) @ buildValue (snd e)"

text \<open>
  \<^verbatim>\<open>Array.prototype.sort\<close> with the comparison \<^verbatim>\<open>(a, b) => a[0].localeCompare(b[0])\<close>.
  The sort of ECMAScript is stable; with a consistent comparison every stable sort gives
  the same array, here computed by insertion. The result of \<^verbatim>\<open>localeCompare\<close> is defined
  by the host and its locale, so the comparison \<open>lc\<close> is a parameter of the builder: it is
  negative, zero or positive as the first string sorts before, with or after the second.
\<close>

fun insert_by :: "(jsstring \<Rightarrow> jsstring \<Rightarrow> int) \<Rightarrow> jsstring \<times> 'a \<Rightarrow> (jsstring \<times> 'a) list \<Rightarrow> (jsstring \<times> 'a) list" where
  "insert_by lc x [] = [x]"
| "insert_by lc x (y # ys) =
     (if lc (fst x) (fst y) \<le> 0 then x # y # ys else y # insert_by lc x ys)"

definition sort_by :: "(jsstring \<Rightarrow> jsstring \<Rightarrow> int) \<Rightarrow> (jsstring \<times> 'a) list \<Rightarrow> (jsstring \<times> 'a) list" where
  "sort_by lc xs = foldr (insert_by lc) xs []"

text \<open>
  \<^verbatim>\<open>toUpperCase\<close>, on the letters of ASCII (it is applied to the output of
  \<^verbatim>\<open>crc16Ccitt\<close> only).
\<close>

definition toUpperCase :: "jsstring \<Rightarrow> jsstring" where
  "toUpperCase s = map (\<lambda>c. if 0x61 \<le> c \<and> c \<le> 0x7A then c - 0x20 else c) s"

text \<open>
  \<^verbatim>\<open>
  export const buildEmv = (map: EmvMap): string => {
    let payloadNoCRC = '';
    const entries = Object.entries(map).filter(([t]) => t !== '63')
                          .sort((a, b) => a[0].localeCompare(b[0]));
    for (const [tag, val] of entries) {
      const vStr = buildValue(val);
      payloadNoCRC += `${tag}${padLen(vStr.length)}${vStr}`;
    }
    const forCRC = `${payloadNoCRC}63${padLen(4)}`;
    const crc = crc16Ccitt(forCRC).toUpperCase();
    return `${payloadNoCRC}63${padLen(4)}${crc}`;
  };
  \<close>
\<close>

definition buildEmv_entries :: "(jsstring \<Rightarrow> jsstring \<Rightarrow> int) \<Rightarrow> EmvMap \<Rightarrow> EmvMap" where
  "buildEmv_entries lc m = sort_by lc (filter (\<lambda>e. fst e \<noteq> js ''63'') m)"

definition buildEmv :: "(jsstring \<Rightarrow> jsstring \<Rightarrow> int) \<Rightarrow> EmvMap \<Rightarrow> jsstring" where
  "buildEmv lc m =
     (let entries = buildEmv_entries lc m;
          payloadNoCRC = concat (map field entries);
          forCRC = payloadNoCRC @ js ''63'' @ padLen 4;
          crc = toUpperCase (crc16Ccitt forCRC)
      in payloadNoCRC @ js ''63'' @ padLen 4 @ crc)"

subsection \<open>The dynamic payload: \<^verbatim>\<open>generateDynamicQRISPayload\<close>\<close>

text \<open>
  \<^verbatim>\<open>amount.toFixed(2)\<close>. The amount is a double; a finite double is a rational number,
  and \<^verbatim>\<open>toFixed\<close> is defined on that exact value: the integer \<open>n\<close> nearest to a hundred
  times the magnitude (the larger one at a tie), written with at least three digits and a
  point before the last two. (For magnitudes from \<open>10^21\<close> on, and for \<^verbatim>\<open>NaN\<close> and the
  infinities, \<^verbatim>\<open>toFixed\<close> returns the text of \<^verbatim>\<open>ToString\<close> instead, which is not
  modelled; amounts are taken below that bound.)
\<close>

definition toFixed2 :: "rat \<Rightarrow> jsstring" where
  "toFixed2 x =
     (let s = (if x < 0 then js ''-'' else []);
          n = nat \<lfloor>\<bar>x\<bar> * 100 + 1 / 2\<rfloor>;
          m = toStringRadix 10 n;
          m' = (if length m \<le> 2 then replicate (3 - length m) 0x30 @ m else m);
          k = length m'
      in s @ take (k - 2) m' @ js ''.'' @ drop (k - 2) m')"

text \<open>\<^verbatim>\<open>.replace(/\.00$/, '')\<close>\<close>

definition replace_dot00 :: "jsstring \<Rightarrow> jsstring" where
  "replace_dot00 s =
     (if 3 \<le> length s \<and> drop (length s - 3) s = js ''.00'' then take (length s - 3) s else s)"

text \<open>
  \<^verbatim>\<open>
  export const generateDynamicQRISPayload =
      (basePayload: string, amount: number, reference?: string): string => {
    const emv = parseEmv(basePayload);
    emv['01'] = '12';
    const amountStr = amount.toFixed(2).replace(/\.00$/, '');
    emv['54'] = amountStr;
    const addl = (typeof emv['62'] === 'object') ? (emv['62'] as EmvMap) : {};
    if (reference) {
      addl['01'] = reference;
    }
    emv['62'] = addl;
    return buildEmv(emv);
  };
  \<close>
  The optional \<^verbatim>\<open>reference\<close> is an \<open>option\<close>; \<^verbatim>\<open>if (reference)\<close> holds for a string that
  is given and not empty. \<open>dynamic_tree\<close> is the object \<^verbatim>\<open>emv\<close> as it is handed to
  \<^verbatim>\<open>buildEmv\<close>.
\<close>

definition dynamic_tree :: "EmvMap \<Rightarrow> rat \<Rightarrow> jsstring option \<Rightarrow> EmvMap" where
  "dynamic_tree emv amount reference =
     (let emv1 = obj_set emv (js ''01'') (Leaf (js ''12''));
          amountStr = replace_dot00 (toFixed2 amount);
          emv2 = obj_set emv1 (js ''54'') (Leaf amountStr);
          addl = (case obj_get emv2 (js ''62'') of Some (Composite sub) \<Rightarrow> sub | _ \<Rightarrow> []);
          addl' = (case reference of
                     Some r \<Rightarrow> if r \<noteq> [] then obj_set addl (js ''01'') (Leaf r) else addl
                   | None \<Rightarrow> addl)
      in obj_set emv2 (js ''62'') (Composite addl'))"

definition generateDynamicQRISPayload ::
    "(jsstring \<Rightarrow> jsstring \<Rightarrow> int) \<Rightarrow> jsstring \<Rightarrow> rat \<Rightarrow> jsstring option \<Rightarrow> jsstring option" where
  "generateDynamicQRISPayload lc basePayload amount reference =
     Option.bind (parseEmv basePayload)
       (\<lambda>emv. Some (buildEmv lc (dynamic_tree emv amount reference)))"

subsection \<open>A comparison and a payload for the closed statements\<close>

text \<open>
  The comparison \<open>lc\<close> of the builder is a parameter. Statements about one concrete
  payload need one concrete comparison: \<open>localeCompare_root\<close> is
  \<^verbatim>\<open>String.prototype.localeCompare\<close> on strings of ASCII letters and digits as the
  hosts built on ICU compute it (the root collation, which the English and the
  Indonesian locale share): digits sort before letters, letters sort alphabetically
  whatever their case, and two strings that differ in case only are ordered by their
  first difference, the lowercase letter first. (Other code units are put after the
  letters, in code unit order; no statement below applies it to them.)
\<close>

definition collationKey :: "jschar \<Rightarrow> nat" where
  "collationKey c =
     (if 0x30 \<le> c \<and> c \<le> 0x39 then unat c - 48
      else if 0x41 \<le> c \<and> c \<le> 0x5A then 10 + (unat c - 65)
      else if 0x61 \<le> c \<and> c \<le> 0x7A then 10 + (unat c - 97)
      else 36 + unat c)"

definition caseKey :: "jschar \<Rightarrow> nat" where
  "caseKey c = (if 0x41 \<le> c \<and> c \<le> 0x5A then 1 else 0)"

definition localeCompare_root :: "jsstring \<Rightarrow> jsstring \<Rightarrow> int" where
  "localeCompare_root a b =
     (let pa = map collationKey a; pb = map collationKey b;
          ta = map caseKey a; tb = map caseKey b
      in if pa < pb then - 1 else if pb < pa then 1
         else if ta < tb then - 1 else if tb < ta then 1 else 0)"

text \<open>A static QRIS payload, and the tree that \<^verbatim>\<open>parseEmv\<close> returns for it.\<close>

definition qris_sample :: jsstring where
  "qris_sample = js (''00020101021126570011ID.DANA.WWW011893600915302259148102090225914810303UMI'' @
     ''51440014ID.CO.QRIS.WWW0215ID10200176114730303UMI5204581253033605802ID'' @
     ''5922Warung Sayur Bu Sugeng6010Kab. Demak610559567630458C7'')"

definition qris_sample_tree :: EmvMap where
  "qris_sample_tree =
    [(js ''26'', Composite [(js ''00'', Leaf (js ''ID.DANA.WWW'')),
        (js ''01'', Leaf (js ''936009153022591481'')), (js ''02'', Leaf (js ''022591481'')),
        (js ''03'', Leaf (js ''UMI''))]),
     (js ''51'', Composite [(js ''00'', Leaf (js ''ID.CO.QRIS.WWW'')),
        (js ''02'', Leaf (js ''ID1020017611473'')), (js ''03'', Leaf (js ''UMI''))]),
     (js ''52'', Leaf (js ''5812'')), (js ''53'', Leaf (js ''360'')), (js ''58'', Leaf (js ''ID'')),
     (js ''59'', Leaf (js ''Warung Sayur Bu Sugeng'')), (js ''60'', Leaf (js ''Kab. Demak'')),
     (js ''61'', Leaf (js ''59567'')), (js ''63'', Leaf (js ''58C7'')),
     (js ''00'', Leaf (js ''01'')), (js ''01'', Leaf (js ''11''))]"

subsection \<open>Predicates of the statements\<close>

text \<open>
  An entry as the parser stores it, at every level of nesting: the tag matches the tag
  pattern, and the value is an object exactly when the tag is \<^verbatim>\<open>'62'\<close> or reads as a
  number from 26 to 51.
\<close>

fun parsed_entry :: "jsstring \<times> EmvNode \<Rightarrow> bool" where
  "parsed_entry (t, Leaf s) \<longleftrightarrow> tagPattern t \<and> \<not> isCompositeTag t"
| "parsed_entry (t, Composite sub) \<longleftrightarrow>
     tagPattern t \<and> isCompositeTag t \<and> list_all parsed_entry sub"

text \<open>
  An entry whose fields fit the two-digit length: every value, at every level of nesting,
  is built in at most 99 characters, and no nested object has a tag \<^verbatim>\<open>'63'\<close> (at which
  the parser would stop reading the nested value).
\<close>

fun fits_entry :: "jsstring \<times> EmvNode \<Rightarrow> bool" where
  "fits_entry (t, Leaf s) \<longleftrightarrow> length s \<le> 99"
| "fits_entry (t, Composite sub) \<longleftrightarrow>
     length (buildValue (Composite sub)) \<le> 99 \<and> js ''63'' \<notin> fst ` set sub \<and>
     list_all fits_entry sub"

text \<open>
  A list of keys in an order in which an object can enumerate them: a key that is an
  array index is preceded only by smaller array indices. \<open>ordered_entry\<close> says of an
  entry that every nested object in it is such a list of distinct keys.
\<close>

fun own_order :: "jsstring list \<Rightarrow> bool" where
  "own_order (k # k' # ks) \<longleftrightarrow>
     (case toArrayIndex k' of
        Some n' \<Rightarrow> (case toArrayIndex k of Some n \<Rightarrow> n < n' | None \<Rightarrow> False)
      | None \<Rightarrow> True) \<and>
     own_order (k' # ks)"
| "own_order _ \<longleftrightarrow> True"

fun ordered_entry :: "jsstring \<times> EmvNode \<Rightarrow> bool" where
  "ordered_entry (t, Leaf s) \<longleftrightarrow> True"
| "ordered_entry (t, Composite sub) \<longleftrightarrow>
     distinct (map fst sub) \<and> own_order (map fst sub) \<and> list_all ordered_entry sub"

text \<open>
  What the parser reads back from a built value: the same string, and for an object the
  object that the assignments \<^verbatim>\<open>map[tag] = ...\<close> make when the sub-fields are read in
  the order in which they were emitted. \<open>reads_back\<close> says of one entry that its field is
  read back so.
\<close>

fun reread :: "EmvNode \<Rightarrow> EmvNode" where
  "reread (Leaf s) = Leaf s"
| "reread (Composite sub) =
     Composite (foldl (\<lambda>m e. obj_set m (fst e) (reread (snd e))) [] sub)"

definition reads_back :: "jsstring \<times> EmvNode \<Rightarrow> bool" where
  "reads_back e \<longleftrightarrow>
     tagPattern (fst e) \<and> fst e \<noteq> js ''63'' \<and> length (buildValue (snd e)) \<le> 99 \<and>
     (if isCompositeTag (fst e)
      then \<exists>sub. reread (snd e) = Composite sub \<and>
             parseEmv_loop (buildValue (snd e)) (Num 0) [] = Some sub
      else reread (snd e) = Leaf (buildValue (snd e)))"

section \<open>Properties\<close>

subsection \<open>Library facts\<close>

lemma length_toStringRadix:
  "2 \<le> r \<Longrightarrow> n < r ^ k \<Longrightarrow> 0 < k \<Longrightarrow> length (toStringRadix r n) \<le> k"
proof (induction k arbitrary: n)
  case 0
  then show ?case by simp
next
  case (Suc k)
  show ?case
  proof (cases "n < r")
    case True
    then show ?thesis by (simp add: toStringRadix.simps)
  next
    case False
    with Suc.prems have k: "0 < k"
      by (cases k) auto
    from Suc.prems have "n div r < r ^ k"
      by (simp add: less_mult_imp_div_less mult.commute)
    with Suc.IH [of "n div r"] Suc.prems k have "length (toStringRadix r (n div r)) \<le> k"
      by simp
    with False Suc.prems show ?thesis
      by (subst toStringRadix.simps) simp
  qed
qed

lemma isLowerHex_digit_char: "d < 16 \<Longrightarrow> isLowerHex (digit_char d)"
  by (auto simp: isLowerHex_def digit_char_def word_le_nat_alt unat_of_nat unat_word_ariths)

lemma isLowerHex_toStringRadix: "list_all isLowerHex (toStringRadix 16 n)"
proof (induction n rule: less_induct)
  case (less n)
  show ?case
  proof (cases "n < 16")
    case True
    then show ?thesis
      by (simp add: toStringRadix.simps isLowerHex_digit_char)
  next
    case False
    then have "n div 16 < n" by simp
    from less [OF this] False show ?thesis
      by (subst toStringRadix.simps) (simp add: isLowerHex_digit_char)
  qed
qed

subsection \<open>The checksum\<close>

lemma crc_char_unfold:
  "crc_char crc c =
     crc_step (crc_step (crc_step (crc_step (crc_step (crc_step (crc_step (crc_step
       (crc XOR push_bit 8 (ucast c)))))))))"
  unfolding crc_char_def
  by (simp only: numeral_eq_Suc pred_numeral_simps funpow.simps o_apply id_apply
      arith_simps funpow_swap1)

lemma crc_step_le: "crc_step crc \<le> 0xffff"
  unfolding crc_step_def by (rule word_and_le1)

lemma crc_char_le: "crc_char crc c \<le> 0xffff"
  unfolding crc_char_unfold by (rule crc_step_le)

lemma crc_register_le: "crc \<le> 0xffff \<Longrightarrow> foldl crc_char crc str \<le> 0xffff"
  by (induction str arbitrary: crc) (simp_all add: crc_char_le)

lemma crc_register_bound: "unat (foldl crc_char 0xffff str) < 16 ^ 4"
proof -
  have "foldl crc_char 0xffff str \<le> (0xffff :: 32 word)"
    by (rule crc_register_le) simp
  then have "unat (foldl crc_char 0xffff str) \<le> unat (0xffff :: 32 word)"
    by (simp add: word_le_nat_alt)
  then show ?thesis by simp
qed

lemma crc16Ccitt_length: "length (crc16Ccitt str) = 4"
proof -
  have "length (toStringRadix 16 (unat (foldl crc_char 0xffff str))) \<le> 4"
    by (rule length_toStringRadix [OF _ crc_register_bound]) simp_all
  then show ?thesis
    by (simp add: crc16Ccitt_def padStart_def)
qed

lemma crc16Ccitt_hex: "list_all isLowerHex (crc16Ccitt str)"
proof -
  have "list_all isLowerHex (replicate n 0x30)" for n
    by (simp add: list_all_iff isLowerHex_def)
  then show ?thesis
    by (simp add: crc16Ccitt_def padStart_def isLowerHex_toStringRadix)
qed

text \<open>
  Claim C5. \<^verbatim>\<open>crc16Ccitt("123456789")\<close> is \<^verbatim>\<open>"29b1"\<close>, the check value of
  CRC-16/CCITT-FALSE, and for every input string the result is exactly four characters,
  each a lowercase hexadecimal digit (so it is padded with zeros to four).
\<close>

theorem crc16Ccitt_check_value_and_shape:
  "crc16Ccitt (js ''123456789'') = js ''29b1'' \<and>
   length (crc16Ccitt str) = 4 \<and> list_all isLowerHex (crc16Ccitt str)"
proof -
  have "crc16Ccitt (js ''123456789'') = js ''29b1''"
    by (simp add: crc16Ccitt_def js_def crc_char_unfold crc_step_def toStringRadix.simps
        digit_char_def padStart_def)
  then show ?thesis
    by (simp add: crc16Ccitt_length crc16Ccitt_hex)
qed

subsection \<open>Evaluating the model, and one turn of the parser's loop\<close>

lemmas js_eval = js_def slice_def Let_def parseInt_def decimalValue_def digitVal_def
  isWhiteSpace_def isDigit_def tagPattern_def isAlnum_def isCompositeTag_def obj_set_def
  toArrayIndex_def obj_get_def

lemma slice_nonneg:
  "0 \<le> a \<Longrightarrow> 0 \<le> b \<Longrightarrow> slice p (Num a) (Num b) = take (nat (b - a)) (drop (nat a) p)"
  unfolding slice_def Let_def
  apply (cases "b < 0")
   apply (auto simp: min_def max_def)
  done

lemma slice_NaN_end: "0 \<le> a \<Longrightarrow> slice p (Num a) NaN = []"
  by (simp add: slice_def Let_def min_def)

lemma slice_Nil: "slice [] a b = []"
  by (simp add: slice_def Let_def)

lemma parseEmv_loop_Nil: "parseEmv_loop [] i m = Some m"
  by (subst parseEmv_loop.simps) (simp add: slice_Nil tagPattern_def)

lemma parseEmv_loop_exit: "\<not> num_lt i (Num (int (length p))) \<Longrightarrow> parseEmv_loop p i m = Some m"
  by (subst parseEmv_loop.simps) simp

lemma parseInt_short: "length s \<le> 1 \<Longrightarrow> parseInt s = NaN \<or> (\<exists>d. parseInt s = Num d \<and> 0 \<le> d)"
  by (cases s) (auto simp: parseInt_def Let_def)

lemma tag63_not_composite: "\<not> isCompositeTag (js ''63'')"
  by (simp add: js_eval)

lemma parseEmv_loop_step:
  assumes "i < int (length p)"
    and "tag = slice p (Num i) (Num (i + 2))"
    and "tagPattern tag"
    and "len = parseInt (slice p (Num (i + 2)) (Num (i + 4)))"
    and "value = slice p (Num (i + 4)) (num_add (Num (i + 4)) len)"
    and "i3 = num_add (Num (i + 4)) len"
  shows "parseEmv_loop p (Num i) m =
     Option.bind
       (if isCompositeTag tag
        then Option.bind (parseEmv_loop value (Num 0) []) (\<lambda>sub. Some (Composite sub))
        else Some (Leaf value))
       (\<lambda>node. if tag = js ''63'' then Some (obj_set m tag node)
               else parseEmv_loop p i3 (obj_set m tag node))"
proof -
  have t: "tagPattern (slice p (Num i) (Num (i + 2)))"
    using assms(3) unfolding assms(2) .
  show ?thesis
    unfolding assms(2,4,5,6)
    by (subst parseEmv_loop.simps) (use assms(1) t in \<open>simp add: Let_def add.commute [of _ 4]\<close>)
qed

subsection \<open>The end of the payload\<close>

text \<open>
  Claim C6, as the code has it. The loop of \<^verbatim>\<open>parseEmv\<close> runs while the cursor is before
  the end of the payload (\<^verbatim>\<open>i < payload.length\<close>), not while four characters remain.
  With at most one character left it stops and adds nothing. With two or three characters
  left, of which the first two match the tag pattern, it does take a turn: it stores an
  entry under that tag with an empty value (an empty object for a composite tag) and
  stops after it.
\<close>

theorem parseEmv_short_suffix:
  assumes i: "0 \<le> i"
  shows "(int (length payload) \<le> i + 1 \<longrightarrow> parseEmv_loop payload (Num i) m = Some m) \<and>
    ((int (length payload) = i + 2 \<or> int (length payload) = i + 3) \<and>
       tagPattern (take 2 (drop (nat i) payload)) \<longrightarrow>
     parseEmv_loop payload (Num i) m =
       Some (obj_set m (take 2 (drop (nat i) payload))
         (if isCompositeTag (take 2 (drop (nat i) payload)) then Composite [] else Leaf [])))"
proof (intro conjI impI)
  assume short: "int (length payload) \<le> i + 1"
  have "length (slice payload (Num i) (Num (i + 2))) \<le> 1"
    using i short by (simp add: slice_nonneg)
  then have "\<not> tagPattern (slice payload (Num i) (Num (i + 2)))"
    by (auto simp: tagPattern_def)
  then show "parseEmv_loop payload (Num i) m = Some m"
    by (subst parseEmv_loop.simps) simp
next
  define tag where "tag = take 2 (drop (nat i) payload)"
  define len where "len = parseInt (slice payload (Num (i + 2)) (Num (i + 4)))"
  assume a: "(int (length payload) = i + 2 \<or> int (length payload) = i + 3) \<and>
    tagPattern (take 2 (drop (nat i) payload))"
  then have n: "int (length payload) = i + 2 \<or> int (length payload) = i + 3"
    and tag: "tagPattern tag" by (simp_all add: tag_def)
  have tag_eq: "tag = slice payload (Num i) (Num (i + 2))"
    using i by (simp add: slice_nonneg tag_def)
  have "length (slice payload (Num (i + 2)) (Num (i + 4))) \<le> 1"
    using i n by (auto simp: slice_nonneg)
  from parseInt_short [OF this]
  have len: "len = NaN \<or> (\<exists>d. len = Num d \<and> 0 \<le> d)"
    by (simp add: len_def)
  then have value_empty: "slice payload (Num (i + 4)) (num_add (Num (i + 4)) len) = []"
    using i n by (auto simp: slice_nonneg slice_NaN_end)
  from len have stop: "\<not> num_lt (num_add (Num (i + 4)) len) (Num (int (length payload)))"
    using i n by auto
  from n have "i < int (length payload)" by auto
  from parseEmv_loop_step [OF this tag_eq tag len_def value_empty [symmetric] refl, of m]
  show "parseEmv_loop payload (Num i) m =
       Some (obj_set m (take 2 (drop (nat i) payload))
         (if isCompositeTag (take 2 (drop (nat i) payload)) then Composite [] else Leaf []))"
    by (simp add: parseEmv_loop_Nil parseEmv_loop_exit [OF stop] tag_def [symmetric])
qed

lemmas parse_eval = js_eval parseEmv_def parseEmv_loop.simps

theorem parseEmv_short_suffix_witness:
  "parseEmv_loop (js ''000201ab'') (Num 6) [(js ''00'', Leaf (js ''01''))] =
     Some [(js ''00'', Leaf (js ''01'')), (js ''ab'', Leaf [])]"
  using parseEmv_short_suffix [of 6 "js ''000201ab''" "[(js ''00'', Leaf (js ''01''))]"]
  by (simp add: js_eval)

text \<open>
  The claim as it was stated (a rest of two or three characters adds no entry) fails on
  the payloads \<^verbatim>\<open>"ab"\<close>, \<^verbatim>\<open>"ab5"\<close> and \<^verbatim>\<open>"000201ab"\<close>.
\<close>

theorem parseEmv_short_suffix_counterexample:
  "length (js ''ab'') = 2 \<and> parseEmv (js ''ab'') = Some [(js ''ab'', Leaf [])] \<and>
   length (js ''ab5'') = 3 \<and> parseEmv (js ''ab5'') = Some [(js ''ab'', Leaf [])] \<and>
   parseEmv (js ''000201ab'') = Some [(js ''00'', Leaf (js ''01'')), (js ''ab'', Leaf [])]"
  by (simp add: parse_eval)

subsection \<open>A payload on which the parser does not return\<close>

text \<open>
  On \<^verbatim>\<open>"00-4"\<close> the length field is \<^verbatim>\<open>parseInt("-4") = -4\<close>: the value is the empty
  slice and \<^verbatim>\<open>i += len\<close> puts the cursor back to 0, with the loop in the state it
  started from (but for the entry \<^verbatim>\<open>"00"\<close> in the map).
\<close>

lemma diverge_step:
  assumes "\<And>p i m y. loop p i m = Some y \<Longrightarrow> \<not> (p = js ''00-4'' \<and> i = Num 0)"
  shows "(if \<not> num_lt (Num 0) (Num (int (length (js ''00-4'')))) then Some m
      else
        let tag = slice (js ''00-4'') (Num 0) (num_add (Num 0) (Num 2));
            i1 = num_add (Num 0) (Num 2)
        in
          if \<not> tagPattern tag then Some m
          else
            let len = parseInt (slice (js ''00-4'') i1 (num_add i1 (Num 2)));
                i2 = num_add i1 (Num 2);
                value = slice (js ''00-4'') i2 (num_add i2 len);
                i3 = num_add i2 len
            in
              Option.bind
                (if isCompositeTag tag
                 then Option.bind (loop value (Num 0) []) (\<lambda>sub. Some (Composite sub))
                 else Some (Leaf value))
                (\<lambda>node.
                   let m' = obj_set m tag node
                   in if tag = js ''63'' then Some m' else loop (js ''00-4'') i3 m')) \<noteq> Some y"
proof -
  have "loop (js ''00-4'') (Num 0) m' \<noteq> Some y" for m'
    using assms by blast
  then show ?thesis
    by (simp add: js_def slice_def Let_def parseInt_def decimalValue_def digitVal_def
      isWhiteSpace_def isDigit_def tagPattern_def isAlnum_def isCompositeTag_def)
qed

lemma parseEmv_loop_diverges:
  assumes "parseEmv_loop p i m = Some y"
  shows "\<not> (p = js ''00-4'' \<and> i = Num 0)"
  apply (rule parseEmv_loop.raw_induct
      [where P = "\<lambda>p i m y. \<not> (p = js ''00-4'' \<and> i = Num 0)", OF _ assms])
  subgoal premises prems for loop p i m y
    using prems(2) diverge_step [of loop m y, OF prems(1)] by auto
  done

text \<open>
  Claim C8 says that \<^verbatim>\<open>parseEmv\<close> returns a tree for every input string. On the payload
  \<^verbatim>\<open>"00-4"\<close> the call does not return.
\<close>

theorem parseEmv_diverges: "parseEmv (js ''00-4'') = None"
proof (cases "parseEmv (js ''00-4'')")
  case None
  then show ?thesis .
next
  case (Some y)
  then show ?thesis
    using parseEmv_loop_diverges [of "js ''00-4''" "Num 0" "[]" y]
    by (simp add: parseEmv_def)
qed

subsection \<open>What the parser stores\<close>

text \<open>
  A property of maps that holds of the empty object and is kept by every assignment the
  loop makes holds of the result of the loop, if the loop returns.
\<close>

lemma parseEmv_loop_invariant:
  assumes run: "parseEmv_loop p i m = Some y"
    and start: "I m"
    and empty: "I []"
    and leaf: "\<And>m t s. I m \<Longrightarrow> tagPattern t \<Longrightarrow> \<not> isCompositeTag t \<Longrightarrow> I (obj_set m t (Leaf s))"
    and comp: "\<And>m t sub. I m \<Longrightarrow> tagPattern t \<Longrightarrow> isCompositeTag t \<Longrightarrow> I sub \<Longrightarrow>
      I (obj_set m t (Composite sub))"
  shows "I y"
proof -
  have "I m \<longrightarrow> I y"
    apply (rule parseEmv_loop.raw_induct [where P = "\<lambda>p i m y. I m \<longrightarrow> I y", OF _ run])
    subgoal premises prems for loop p i m y
      using prems(2) prems(1) empty leaf comp
      by (auto simp: Let_def split: if_splits Option.bind_splits)
    done
  with start show ?thesis by simp
qed

lemma set_insert_index: "set (insert_index n kv m) = insert kv (set m)"
  by (induction m) (auto split: option.splits)

lemma set_obj_set: "set (obj_set m k v) \<subseteq> insert (k, v) (set m)"
  by (auto simp: obj_set_def set_insert_index split: option.splits if_splits)

lemma list_all_obj_set: "list_all Q m \<Longrightarrow> Q (k, v) \<Longrightarrow> list_all Q (obj_set m k v)"
  using set_obj_set [of m k v] by (auto simp: list_all_iff)

lemma parseEmv_loop_parsed:
  "parseEmv_loop p i m = Some y \<Longrightarrow> list_all parsed_entry m \<Longrightarrow> list_all parsed_entry y"
  by (erule parseEmv_loop_invariant [where I = "list_all parsed_entry"])
    (simp_all add: list_all_obj_set)

text \<open>
  Claim C7. In the tree that \<^verbatim>\<open>parseEmv\<close> returns, every entry under tag \<^verbatim>\<open>'62'\<close> or
  under a tag that \<^verbatim>\<open>parseInt\<close> reads as a number from 26 to 51 is a Composite (an
  object), whatever its content was, and every other entry is a Leaf (a string); the
  same holds inside every nested object (\<open>parsed_entry\<close>).
\<close>

theorem parseEmv_composite_tags:
  assumes "parseEmv payload = Some m" and "(tag, v) \<in> set m"
  shows "(if isCompositeTag tag then \<exists>sub. v = Composite sub else \<exists>s. v = Leaf s) \<and>
         list_all parsed_entry m"
proof -
  from assms(1) have all: "list_all parsed_entry m"
    using parseEmv_loop_parsed [of payload "Num 0" "[]" m] by (simp add: parseEmv_def)
  with assms(2) have "parsed_entry (tag, v)"
    by (auto simp: list_all_iff)
  with all show ?thesis
    by (cases v) simp_all
qed

theorem parseEmv_composite_tags_witness:
  "parseEmv (js ''2603a.c5802ID'') =
     Some [(js ''26'', Composite []), (js ''58'', Leaf (js ''ID''))] \<and>
   isCompositeTag (js ''26'') \<and> \<not> isCompositeTag (js ''58'')"
  using parseEmv_composite_tags [of "js ''2603a.c5802ID''"
      "[(js ''26'', Composite []), (js ''58'', Leaf (js ''ID''))]" "js ''26''" "Composite []"]
  by (simp add: parse_eval)

subsection \<open>The builder and the object operations\<close>

lemma set_insert_by: "set (insert_by lc x ys) = insert x (set ys)"
  by (induction ys) auto

lemma set_sort_by: "set (sort_by lc xs) = set xs"
  by (induction xs) (simp_all add: sort_by_def set_insert_by)

lemma set_buildEmv_entries: "set (buildEmv_entries lc m) = {e \<in> set m. fst e \<noteq> js ''63''}"
  by (auto simp: buildEmv_entries_def set_sort_by)

lemma padLen_4: "padLen 4 = js ''04''"
  by (simp add: padLen_def padStart_def toStringRadix.simps digit_char_def js_def)


lemma buildValue_Composite [simp]: "buildValue (Composite sub) = concat (map field sub)"
  by (induction sub) (simp_all add: field_def)

declare buildValue.simps(2) [simp del]

lemma buildEmv_shape:
  "buildEmv lc m =
     concat (map field (buildEmv_entries lc m)) @ js ''6304'' @
     toUpperCase (crc16Ccitt (concat (map field (buildEmv_entries lc m)) @ js ''6304''))"
  by (simp add: buildEmv_def Let_def padLen_4 js_def)

lemma concat_fields_split:
  "e \<in> set es \<Longrightarrow> \<exists>pre post. concat (map field es) = pre @ field e @ post"
proof -
  assume "e \<in> set es"
  then obtain xs ys where "es = xs @ e # ys"
    by (auto dest: split_list)
  then have "concat (map field es) = concat (map field xs) @ field e @ concat (map field ys)"
    by simp
  then show ?thesis by blast
qed

lemma buildEmv_field:
  assumes "e \<in> set m" and "fst e \<noteq> js ''63''"
  shows "\<exists>pre post. buildEmv lc m = pre @ field e @ post"
proof -
  from assms have "e \<in> set (buildEmv_entries lc m)"
    by (simp add: set_buildEmv_entries)
  from concat_fields_split [OF this] obtain pre post
    where "concat (map field (buildEmv_entries lc m)) = pre @ field e @ post" by blast
  then have "buildEmv lc m = pre @ field e @ (post @ js ''6304'' @
     toUpperCase (crc16Ccitt (concat (map field (buildEmv_entries lc m)) @ js ''6304'')))"
    by (simp add: buildEmv_shape)
  then show ?thesis by blast
qed

lemma map_of_insert_index:
  "k \<notin> fst ` set m \<Longrightarrow> map_of (insert_index n (k, v) m) = (map_of m)(k \<mapsto> v)"
  by (induction m) (auto split: option.splits simp: fun_upd_twist)

lemma map_of_replace:
  "map_of (map (\<lambda>e. if fst e = k then (k, v) else e) m) x =
     (if x = k \<and> k \<in> fst ` set m then Some v else map_of m x)"
  by (induction m) force+

lemma map_of_append_new:
  "k \<notin> fst ` set m \<Longrightarrow> map_of (m @ [(k, v)]) x = (if x = k then Some v else map_of m x)"
  by (induction m) auto

lemma obj_get_obj_set: "obj_get (obj_set m k v) k' = (if k' = k then Some v else obj_get m k')"
  by (simp add: obj_get_def obj_set_def map_of_insert_index map_of_replace map_of_append_new
      del: map_of_append split: option.splits)

lemma obj_get_in_set: "obj_get m k = Some v \<Longrightarrow> (k, v) \<in> set m"
  by (simp add: obj_get_def map_of_SomeD)

subsection \<open>The dynamic payload\<close>

lemmas build_eval = buildEmv_def buildEmv_entries_def sort_by_def field_def padLen_def padStart_def
  toStringRadix.simps digit_char_def toUpperCase_def crc16Ccitt_def crc_char_unfold crc_step_def
  localeCompare_root_def collationKey_def caseKey_def

lemma tag_literals:
  "js ''01'' \<noteq> js ''62''" "js ''54'' \<noteq> js ''62''" "js ''62'' \<noteq> js ''63''"
  "js ''54'' \<noteq> js ''63''" "js ''01'' \<noteq> js ''54''" "js ''01'' \<noteq> js ''63''"
  by (simp_all add: js_def)




lemma dynamic_tree_54:
  "obj_get (dynamic_tree emv amount reference) (js ''54'') =
     Some (Leaf (replace_dot00 (toFixed2 amount)))"
  by (simp add: dynamic_tree_def Let_def obj_get_obj_set js_def)

lemma dynamic_tree_01:
  "obj_get (dynamic_tree emv amount reference) (js ''01'') = Some (Leaf (js ''12''))"
  by (simp add: dynamic_tree_def Let_def obj_get_obj_set js_def)


lemma round_examples:
  "nat \<lfloor>\<bar>21 / 2 :: rat\<bar> * 100 + 1 / 2\<rfloor> = 1050"
  "nat \<lfloor>\<bar>15000 :: rat\<bar> * 100 + 1 / 2\<rfloor> = 1500000"
proof -
  have "\<lfloor>\<bar>21 / 2 :: rat\<bar> * 100 + 1 / 2\<rfloor> = 1050"
    by (rule floor_unique) simp_all
  then show "nat \<lfloor>\<bar>21 / 2 :: rat\<bar> * 100 + 1 / 2\<rfloor> = 1050" by simp
  have "\<lfloor>\<bar>15000 :: rat\<bar> * 100 + 1 / 2\<rfloor> = 1500000"
    by (rule floor_unique) simp_all
  then show "nat \<lfloor>\<bar>15000 :: rat\<bar> * 100 + 1 / 2\<rfloor> = 1500000" by simp
qed

lemma toFixed2_examples:
  "replace_dot00 (toFixed2 (21 / 2)) = js ''10.50''"
  "replace_dot00 (toFixed2 15000) = js ''15000''"
  unfolding toFixed2_def round_examples Let_def
  by (simp_all add: replace_dot00_def toStringRadix.simps digit_char_def js_def)




lemmas generate_eval = generateDynamicQRISPayload_def dynamic_tree_def toFixed2_examples



lemma js_append: "js a @ js b = js (a @ b)"
  by (simp add: js_def)

lemmas field_eval = field_def padLen_def padStart_def toStringRadix.simps digit_char_def
lemmas crc_eval = toUpperCase_def crc16Ccitt_def crc_char_unfold crc_step_def padStart_def
  toStringRadix.simps digit_char_def
lemmas sort_eval = buildEmv_entries_def sort_by_def localeCompare_root_def collationKey_def
  caseKey_def




subsection \<open>The order of the fields\<close>












text \<open>
  Claim C3, as the code has it. \<^verbatim>\<open>buildValue\<close> does not sort: the value of a Composite
  is the concatenation of its fields in the order in which the object enumerates its
  keys (array-index keys ascending, then the others in the order of their creation),
  with no CRC trailer, and the payload carries it after the tag and its padded length.
\<close>

theorem buildEmv_nested_order:
  assumes "(tag, Composite sub) \<in> set m" and "tag \<noteq> js ''63''"
  shows "buildValue (Composite sub) =
      concat (map (\<lambda>(t, v). t @ padLen (length (buildValue v)) @ buildValue v) sub) \<and>
    (\<exists>pre post. buildEmv lc m =
      pre @ tag @ padLen (length (buildValue (Composite sub))) @ buildValue (Composite sub) @ post)"
proof -
  have "field = (\<lambda>(t, v). t @ padLen (length (buildValue v)) @ buildValue v)"
    by (auto simp: field_def fun_eq_iff)
  then have "buildValue (Composite sub) =
      concat (map (\<lambda>(t, v). t @ padLen (length (buildValue v)) @ buildValue v) sub)"
    by simp
  moreover from buildEmv_field [OF assms(1), of lc] assms(2)
  have "\<exists>pre post. buildEmv lc m =
      pre @ tag @ padLen (length (buildValue (Composite sub))) @ buildValue (Composite sub) @ post"
    by (simp add: field_def)
  ultimately show ?thesis by blast
qed

theorem buildEmv_nested_order_witness:
  "buildValue (Composite [(js ''02'', Leaf (js ''b'')), (js ''01'', Leaf (js ''a''))]) =
     js ''0201b0101a'' \<and>
   (\<exists>pre post. buildEmv localeCompare_root
      [(js ''62'', Composite [(js ''02'', Leaf (js ''b'')), (js ''01'', Leaf (js ''a''))])] =
      pre @ js ''62'' @ js ''10'' @ js ''0201b0101a'' @ post)"
proof -
  have v: "buildValue (Composite [(js ''02'', Leaf (js ''b'')), (js ''01'', Leaf (js ''a''))]) =
     js ''0201b0101a''"
    by (simp add: field_eval js_def)
  have l: "padLen (length (js ''0201b0101a'')) = js ''10''"
    by (simp add: field_eval js_def)
  have m: "(js ''62'', Composite [(js ''02'', Leaf (js ''b'')), (js ''01'', Leaf (js ''a''))]) \<in>
      set [(js ''62'', Composite [(js ''02'', Leaf (js ''b'')), (js ''01'', Leaf (js ''a''))])]"
    by simp
  from buildEmv_nested_order [OF m tag_literals(3), of localeCompare_root, unfolded v l]
  have "\<exists>pre post. buildEmv localeCompare_root
      [(js ''62'', Composite [(js ''02'', Leaf (js ''b'')), (js ''01'', Leaf (js ''a''))])] =
      pre @ js ''62'' @ js ''10'' @ js ''0201b0101a'' @ post"
    by blast
  with v show ?thesis by blast
qed

text \<open>
  The sub-tags \<^verbatim>\<open>02\<close> and \<^verbatim>\<open>01\<close>, created in this order by the parser, are emitted
  in this order.
\<close>

theorem buildEmv_nested_order_counterexample:
  "parseEmv (js ''62100201b0101a'') =
     Some [(js ''62'', Composite [(js ''02'', Leaf (js ''b'')), (js ''01'', Leaf (js ''a''))])] \<and>
   buildEmv localeCompare_root
     [(js ''62'', Composite [(js ''02'', Leaf (js ''b'')), (js ''01'', Leaf (js ''a''))])] =
     js ''62100201b0101a6304CFAB'' \<and>
   js ''01'' < js ''02''"
proof -
  let ?m = "[(js ''62'', Composite [(js ''02'', Leaf (js ''b'')), (js ''01'', Leaf (js ''a''))])]"
  have e: "buildEmv_entries localeCompare_root ?m = ?m"
    by (simp add: sort_eval js_def)
  have f: "concat (map field ?m) = js ''62100201b0101a''"
    by (simp add: field_eval js_def)
  have c: "toUpperCase (crc16Ccitt (js ''62100201b0101a'' @ js ''6304'')) = js ''CFAB''"
    by (simp add: crc_eval js_def)
  have "buildEmv localeCompare_root ?m = js ''62100201b0101a6304CFAB''"
    by (simp only: buildEmv_shape e f c) (simp add: js_def)
  moreover have "parseEmv (js ''62100201b0101a'') = Some ?m"
    by (simp add: parse_eval)
  moreover have "js ''01'' < js ''02''"
    by (simp add: js_def)
  ultimately show ?thesis
    by simp
qed

subsection \<open>Reading back what the builder wrote\<close>

lemma digit_char_props:
  assumes "d < 10"
  shows "isDigit (digit_char d)" and "\<not> isWhiteSpace (digit_char d)"
    and "digit_char d \<noteq> 0x2D" and "digit_char d \<noteq> 0x2B" and "digitVal (digit_char d) = d"
proof -
  from assms have "d = 0 \<or> d = 1 \<or> d = 2 \<or> d = 3 \<or> d = 4 \<or> d = 5 \<or> d = 6 \<or> d = 7 \<or>
      d = 8 \<or> d = 9"
    by arith
  then have "isDigit (digit_char d) \<and> \<not> isWhiteSpace (digit_char d) \<and>
      digit_char d \<noteq> 0x2D \<and> digit_char d \<noteq> 0x2B \<and> digitVal (digit_char d) = d"
    by (elim disjE) (simp_all add: digit_char_def isDigit_def isWhiteSpace_def digitVal_def)
  then show "isDigit (digit_char d)" and "\<not> isWhiteSpace (digit_char d)"
    and "digit_char d \<noteq> 0x2D" and "digit_char d \<noteq> 0x2B" and "digitVal (digit_char d) = d"
    by simp_all
qed

lemma padLen_two_digits:
  assumes "n \<le> 99"
  shows "padLen n = [digit_char (n div 10), digit_char (n mod 10)]"
proof (cases "n < 10")
  case True
  then show ?thesis
    by (simp add: padLen_def padStart_def toStringRadix.simps digit_char_def)
next
  case False
  with assms have "n div 10 < 10" by simp
  with False show ?thesis
    by (simp add: padLen_def padStart_def toStringRadix.simps [of 10 n]
        toStringRadix.simps [of 10 "n div 10"])
qed

lemma parseInt_two_digits:
  assumes "a < 10" and "b < 10"
  shows "parseInt [digit_char a, digit_char b] = Num (int (10 * a + b))"
  using digit_char_props [OF assms(1)] digit_char_props [OF assms(2)]
  by (simp add: parseInt_def Let_def decimalValue_def)

lemma parseInt_padLen: "n \<le> 99 \<Longrightarrow> parseInt (padLen n) = Num (int n)"
proof -
  assume n: "n \<le> 99"
  then have "n div 10 < 10" and "n mod 10 < 10" by simp_all
  from parseInt_two_digits [OF this] show ?thesis
    by (simp add: padLen_two_digits [OF n])
qed

lemma length_padLen: "n \<le> 99 \<Longrightarrow> length (padLen n) = 2"
  by (simp add: padLen_two_digits)

lemma slice_mid:
  "slice (xs @ ys @ zs) (Num (int (length xs))) (Num (int (length xs) + int (length ys))) = ys"
  by (simp add: slice_nonneg)

lemma parseEmv_loop_field:
  assumes tag: "tagPattern t" and n: "length (buildValue v) \<le> 99"
  shows "parseEmv_loop (pre @ field (t, v) @ rest) (Num (int (length pre))) m =
     Option.bind
       (if isCompositeTag t
        then Option.bind (parseEmv_loop (buildValue v) (Num 0) []) (\<lambda>sub. Some (Composite sub))
        else Some (Leaf (buildValue v)))
       (\<lambda>node. if t = js ''63'' then Some (obj_set m t node)
          else parseEmv_loop (pre @ field (t, v) @ rest)
                 (Num (int (length pre + length (field (t, v))))) (obj_set m t node))"
proof -
  define V where "V = buildValue v"
  define L where "L = padLen (length V)"
  define p where "p = pre @ field (t, v) @ rest"
  define i where "i = int (length pre)"
  from tag have lt: "length t = 2" by (simp add: tagPattern_def)
  from n have lL: "length L = 2" by (simp add: L_def V_def length_padLen)
  have p: "p = pre @ t @ L @ V @ rest"
    by (simp add: p_def field_def L_def V_def)
  have s1: "slice p (Num i) (Num (i + 2)) = t"
    using slice_mid [of pre t "L @ V @ rest"] by (simp add: p i_def lt)
  have s2: "slice p (Num (i + 2)) (Num (i + 4)) = L"
    using slice_mid [of "pre @ t" L "V @ rest"] by (simp add: p i_def lt lL add.commute)
  have s3: "slice p (Num (i + 4)) (Num (i + 4 + int (length V))) = V"
    using slice_mid [of "pre @ t @ L" V rest] by (simp add: p i_def lt lL add.commute)
  have len: "parseInt L = Num (int (length V))"
    using n by (simp add: L_def V_def parseInt_padLen)
  have "i < int (length p)"
    by (simp add: p i_def lt)
  from parseEmv_loop_step [OF this s1 [symmetric] _ refl refl refl, of m] tag
  have main: "parseEmv_loop p (Num i) m =
     Option.bind
       (if isCompositeTag t
        then Option.bind (parseEmv_loop V (Num 0) []) (\<lambda>sub. Some (Composite sub))
        else Some (Leaf V))
       (\<lambda>node. if t = js ''63'' then Some (obj_set m t node)
          else parseEmv_loop p (Num (i + 4 + int (length V))) (obj_set m t node))"
    by (simp add: s2 len s3)
  have e: "i + 4 + int (length V) = int (length pre + length (field (t, v)))"
    by (simp add: i_def field_def lt lL L_def [symmetric] V_def [symmetric])
  from main show ?thesis
    unfolding e unfolding p_def i_def V_def .
qed

lemma parseEmv_loop_fields:
  assumes "\<And>e. e \<in> set es \<Longrightarrow> reads_back e"
  shows "parseEmv_loop (pre @ concat (map field es) @ rest) (Num (int (length pre))) m =
     parseEmv_loop (pre @ concat (map field es) @ rest)
       (Num (int (length pre + length (concat (map field es)))))
       (foldl (\<lambda>m e. obj_set m (fst e) (reread (snd e))) m es)"
  using assms
proof (induction es arbitrary: pre m)
  case Nil
  then show ?case by simp
next
  case (Cons e es)
  obtain t v where e: "e = (t, v)" by (cases e)
  from Cons.prems [of e] have rb: "reads_back (t, v)" by (simp add: e)
  then have tag: "tagPattern t" and n: "length (buildValue v) \<le> 99" and t63: "t \<noteq> js ''63''"
    by (simp_all add: reads_back_def)
  let ?p = "pre @ field (t, v) @ concat (map field es) @ rest"
  have "parseEmv_loop ?p (Num (int (length pre))) m =
      parseEmv_loop ?p (Num (int (length pre + length (field (t, v)))))
        (obj_set m t (reread v))"
    using rb t63 parseEmv_loop_field [OF tag n, of pre "concat (map field es) @ rest" m]
    by (auto simp: reads_back_def)
  also have "\<dots> = parseEmv_loop ((pre @ field (t, v)) @ concat (map field es) @ rest)
        (Num (int (length (pre @ field (t, v))))) (obj_set m t (reread v))"
    by simp
  also have "\<dots> = parseEmv_loop ((pre @ field (t, v)) @ concat (map field es) @ rest)
        (Num (int (length (pre @ field (t, v)) + length (concat (map field es)))))
        (foldl (\<lambda>m e. obj_set m (fst e) (reread (snd e))) (obj_set m t (reread v)) es)"
    by (rule Cons.IH) (simp add: Cons.prems)
  finally show ?case
    by (simp add: e add.assoc)
qed

lemma parseEmv_fields:
  assumes "\<And>e. e \<in> set es \<Longrightarrow> reads_back e"
  shows "parseEmv_loop (concat (map field es)) (Num 0) [] =
     Some (foldl (\<lambda>m e. obj_set m (fst e) (reread (snd e))) [] es)"
proof -
  let ?M = "foldl (\<lambda>m e. obj_set m (fst e) (reread (snd e))) [] es"
  from parseEmv_loop_fields [OF assms, where pre = "[]" and rest = "[]" and m = "[]"]
  have "parseEmv_loop (concat (map field es)) (Num 0) [] =
      parseEmv_loop (concat (map field es)) (Num (int (length (concat (map field es))))) ?M"
    by simp
  also have "\<dots> = Some ?M"
    by (rule parseEmv_loop_exit) simp
  finally show ?thesis .
qed

lemma reads_back_deep:
  "parsed_entry (t, v) \<Longrightarrow> fits_entry (t, v) \<Longrightarrow> t \<noteq> js ''63'' \<Longrightarrow> reads_back (t, v)"
proof (induction v arbitrary: t)
  case (Leaf s)
  then show ?case by (simp add: reads_back_def)
next
  case (Composite sub)
  have "reads_back e" if "e \<in> set sub" for e
  proof -
    obtain t' v' where e: "e = (t', v')" by (cases e)
    from that Composite.prems have "parsed_entry (t', v')" "fits_entry (t', v')" "t' \<noteq> js ''63''"
      by (force simp: e list_all_iff)+
    with Composite.IH [of e v' t'] that show ?thesis
      by (simp add: e)
  qed
  from parseEmv_fields [of sub, OF this] Composite.prems show ?case
    by (simp add: reads_back_def)
qed

lemma tagPattern_63: "tagPattern (js ''63'')"
  by (simp add: tagPattern_def js_def isAlnum_def)

lemma parseEmv_buildEmv:
  assumes "\<And>e. e \<in> set m \<Longrightarrow> fst e \<noteq> js ''63'' \<Longrightarrow> reads_back e"
  shows "parseEmv (buildEmv lc m) =
    Some (obj_set (foldl (\<lambda>m e. obj_set m (fst e) (reread (snd e))) [] (buildEmv_entries lc m))
      (js ''63'')
      (Leaf (toUpperCase (crc16Ccitt (concat (map field (buildEmv_entries lc m)) @ js ''6304'')))))"
proof -
  define es where "es = buildEmv_entries lc m"
  define C where "C = toUpperCase (crc16Ccitt (concat (map field es) @ js ''6304''))"
  define M where "M = foldl (\<lambda>m e. obj_set m (fst e) (reread (snd e))) [] es"
  have lC: "length C = 4"
    by (simp add: C_def toUpperCase_def crc16Ccitt_length)
  then have trailer: "js ''6304'' @ C = field (js ''63'', Leaf C)"
    by (simp add: field_def padLen_4 js_def)
  have rb: "reads_back e" if "e \<in> set es" for e
    using that assms by (simp add: es_def set_buildEmv_entries)
  have out: "buildEmv lc m = concat (map field es) @ field (js ''63'', Leaf C)"
    unfolding trailer [symmetric] by (simp add: buildEmv_shape es_def C_def)
  have "parseEmv (buildEmv lc m) =
      parseEmv_loop ([] @ concat (map field es) @ field (js ''63'', Leaf C)) (Num (int (length ([] :: jsstring)))) []"
    by (simp add: parseEmv_def out)
  also have "\<dots> = parseEmv_loop ([] @ concat (map field es) @ field (js ''63'', Leaf C))
      (Num (int (length ([] :: jsstring) + length (concat (map field es))))) M"
    unfolding M_def by (rule parseEmv_loop_fields) (rule rb)
  also have "\<dots> = parseEmv_loop (concat (map field es) @ field (js ''63'', Leaf C) @ [])
      (Num (int (length (concat (map field es))))) M"
    by simp
  also have "\<dots> = Some (obj_set M (js ''63'') (Leaf C))"
    by (subst parseEmv_loop_field) (simp_all add: lC tag63_not_composite tagPattern_63)
  finally show ?thesis
    by (simp add: M_def C_def es_def)
qed

lemma obj_get_foldl_other:
  "k \<notin> fst ` set es \<Longrightarrow>
   obj_get (foldl (\<lambda>m e. obj_set m (fst e) (f (snd e))) m es) k = obj_get m k"
  by (induction es arbitrary: m) (auto simp: obj_get_obj_set)

lemma obj_get_foldl_same:
  assumes "(k, v) \<in> set es" and "\<And>v'. (k, v') \<in> set es \<Longrightarrow> v' = v"
  shows "obj_get (foldl (\<lambda>m e. obj_set m (fst e) (f (snd e))) m es) k = Some (f v)"
  using assms
proof (induction es arbitrary: m)
  case Nil
  then show ?case by simp
next
  case (Cons e es)
  show ?case
  proof (cases "(k, v) \<in> set es")
    case True
    then show ?thesis
      using Cons.prems(2) by (simp add: Cons.IH)
  next
    case False
    with Cons.prems(1) have e: "e = (k, v)" by simp
    have "k \<notin> fst ` set es"
    proof
      assume "k \<in> fst ` set es"
      then obtain v' where "(k, v') \<in> set es" by auto
      with Cons.prems(2) [of v'] False show False by simp
    qed
    then show ?thesis
      by (simp add: e obj_get_foldl_other obj_get_obj_set)
  qed
qed

lemma in_obj_set_same: "(k, v') \<in> set (obj_set m k v) \<Longrightarrow> v' = v"
  by (auto simp: obj_set_def set_insert_index image_iff split: if_splits option.splits)

lemma in_obj_set_other: "(k', v') \<in> set (obj_set m k v) \<Longrightarrow> k' \<noteq> k \<Longrightarrow> (k', v') \<in> set m"
  by (auto simp: obj_set_def set_insert_index split: if_splits option.splits)

lemma in_obj_set: "(k, v) \<in> set (obj_set m k v)"
  by (rule obj_get_in_set) (simp add: obj_get_obj_set)

lemma tag_facts:
  "tagPattern (js ''01'')" "\<not> isCompositeTag (js ''01'')"
  "tagPattern (js ''54'')" "\<not> isCompositeTag (js ''54'')"
  "tagPattern (js ''62'')" "isCompositeTag (js ''62'')"
  by (simp_all add: js_eval)

lemma dynamic_tree_parsed:
  assumes "list_all parsed_entry emv"
  shows "list_all parsed_entry (dynamic_tree emv amount reference)"
proof -
  define emv2 where "emv2 = obj_set (obj_set emv (js ''01'') (Leaf (js ''12''))) (js ''54'')
      (Leaf (replace_dot00 (toFixed2 amount)))"
  define addl where
    "addl = (case obj_get emv2 (js ''62'') of Some (Composite sub) \<Rightarrow> sub | _ \<Rightarrow> [])"
  define addl' where "addl' = (case reference of
      Some r \<Rightarrow> if r \<noteq> [] then obj_set addl (js ''01'') (Leaf r) else addl | None \<Rightarrow> addl)"
  have t: "dynamic_tree emv amount reference = obj_set emv2 (js ''62'') (Composite addl')"
    by (cases reference) (simp_all add: dynamic_tree_def Let_def emv2_def addl_def addl'_def)
  have p2: "list_all parsed_entry emv2"
    unfolding emv2_def using assms by (intro list_all_obj_set) (simp_all add: tag_facts)
  have "list_all parsed_entry addl"
  proof (cases "\<exists>sub. obj_get emv2 (js ''62'') = Some (Composite sub)")
    case True
    then obtain sub where sub: "obj_get emv2 (js ''62'') = Some (Composite sub)" by blast
    then have "(js ''62'', Composite sub) \<in> set emv2" by (rule obj_get_in_set)
    from p2 [unfolded list_all_iff, rule_format, OF this]
    have "list_all parsed_entry sub" by simp
    with sub show ?thesis by (simp add: addl_def)
  next
    case False
    then have "addl = []"
      by (auto simp: addl_def split: option.splits EmvNode.splits)
    then show ?thesis by simp
  qed
  then have "list_all parsed_entry addl'"
    by (auto simp: addl'_def tag_facts intro!: list_all_obj_set split: option.splits)
  with p2 show ?thesis
    unfolding t by (intro list_all_obj_set) (simp_all add: tag_facts)
qed

lemma buildEmv_trailer:
  "drop (length (buildEmv lc m) - 4) (buildEmv lc m) =
     toUpperCase (crc16Ccitt (take (length (buildEmv lc m) - 4) (buildEmv lc m))) \<and>
   take 4 (drop (length (buildEmv lc m) - 8) (buildEmv lc m)) = js ''6304''"
proof -
  define B where "B = concat (map field (buildEmv_entries lc m))"
  define C where "C = toUpperCase (crc16Ccitt (B @ js ''6304''))"
  have lC: "length C = 4"
    by (simp add: C_def toUpperCase_def crc16Ccitt_length)
  have l: "length (js ''6304'') = 4" by (simp add: js_def)
  have out: "buildEmv lc m = B @ js ''6304'' @ C"
    by (simp add: buildEmv_shape B_def C_def)
  show ?thesis
    unfolding out by (simp add: lC l) (simp add: C_def)
qed

lemma generate_reparse:
  assumes parse: "parseEmv basePayload = Some emv"
    and fits: "list_all fits_entry
      (filter (\<lambda>e. fst e \<noteq> js ''63'') (dynamic_tree emv amount (Some reference)))"
    and ref: "reference \<noteq> []"
  shows "\<exists>out r sub.
    generateDynamicQRISPayload lc basePayload amount (Some reference) = Some out \<and>
    parseEmv out = Some r \<and>
    obj_get r (js ''01'') = Some (Leaf (js ''12'')) \<and>
    obj_get r (js ''54'') = Some (Leaf (replace_dot00 (toFixed2 amount))) \<and>
    obj_get r (js ''62'') = Some (Composite sub) \<and>
    obj_get sub (js ''01'') = Some (Leaf reference) \<and>
    drop (length out - 4) out = toUpperCase (crc16Ccitt (take (length out - 4) out)) \<and>
    take 4 (drop (length out - 8) out) = js ''6304''"
proof -
  define T where "T = dynamic_tree emv amount (Some reference)"
  define emv1 where "emv1 = obj_set emv (js ''01'') (Leaf (js ''12''))"
  define emv2 where "emv2 = obj_set emv1 (js ''54'') (Leaf (replace_dot00 (toFixed2 amount)))"
  define addl where
    "addl = (case obj_get emv2 (js ''62'') of Some (Composite sub) \<Rightarrow> sub | _ \<Rightarrow> [])"
  define addl' where "addl' = obj_set addl (js ''01'') (Leaf reference)"
  define es where "es = buildEmv_entries lc T"
  define M where "M = foldl (\<lambda>m e. obj_set m (fst e) (reread (snd e))) [] es"
  define C where "C = toUpperCase (crc16Ccitt (concat (map field es) @ js ''6304''))"
  have T: "T = obj_set emv2 (js ''62'') (Composite addl')"
    using ref by (simp add: T_def dynamic_tree_def Let_def emv2_def emv1_def addl_def addl'_def)
  have out: "generateDynamicQRISPayload lc basePayload amount (Some reference) =
      Some (buildEmv lc T)"
    by (simp add: generateDynamicQRISPayload_def parse T_def)
  from parse have "list_all parsed_entry emv"
    using parseEmv_loop_parsed [of basePayload "Num 0" "[]" emv] by (simp add: parseEmv_def)
  then have parsed: "list_all parsed_entry T"
    unfolding T_def by (rule dynamic_tree_parsed)
  have rb: "reads_back e" if "e \<in> set T" "fst e \<noteq> js ''63''" for e
  proof -
    from that parsed fits have "parsed_entry e" "fits_entry e"
      by (cases e; simp add: list_all_iff T_def)+
    with that(2) reads_back_deep [of "fst e" "snd e"] show ?thesis by simp
  qed
  have r: "parseEmv (buildEmv lc T) = Some (obj_set M (js ''63'') (Leaf C))"
    unfolding M_def C_def es_def by (rule parseEmv_buildEmv) (rule rb)
  have set_es: "set es = {e \<in> set T. fst e \<noteq> js ''63''}"
    by (simp add: es_def set_buildEmv_entries)
  have m62: "(js ''62'', Composite addl') \<in> set T"
    unfolding T by (rule in_obj_set)
  have u62: "v' = Composite addl'" if "(js ''62'', v') \<in> set T" for v'
    using that unfolding T by (rule in_obj_set_same)
  have m54: "(js ''54'', Leaf (replace_dot00 (toFixed2 amount))) \<in> set T"
    unfolding T_def by (rule obj_get_in_set) (rule dynamic_tree_54)
  have u54: "v' = Leaf (replace_dot00 (toFixed2 amount))" if "(js ''54'', v') \<in> set T" for v'
  proof -
    from that have "(js ''54'', v') \<in> set emv2"
      unfolding T by (rule in_obj_set_other) (rule tag_literals)
    then show ?thesis
      unfolding emv2_def by (rule in_obj_set_same)
  qed
  have m01: "(js ''01'', Leaf (js ''12'')) \<in> set T"
    unfolding T_def by (rule obj_get_in_set) (rule dynamic_tree_01)
  have u01: "v' = Leaf (js ''12'')" if "(js ''01'', v') \<in> set T" for v'
  proof -
    from that have "(js ''01'', v') \<in> set emv2"
      unfolding T by (rule in_obj_set_other) (rule tag_literals)
    then have "(js ''01'', v') \<in> set emv1"
      unfolding emv2_def by (rule in_obj_set_other) (rule tag_literals)
    then show ?thesis
      unfolding emv1_def by (rule in_obj_set_same)
  qed
  have in_es: "(k, v) \<in> set es \<longleftrightarrow> (k, v) \<in> set T \<and> k \<noteq> js ''63''" for k v
    by (simp add: set_es)
  have g01: "obj_get M (js ''01'') = Some (reread (Leaf (js ''12'')))"
    unfolding M_def
  proof (rule obj_get_foldl_same)
    show "(js ''01'', Leaf (js ''12'')) \<in> set es"
      using m01 tag_literals by (simp add: in_es)
    show "v' = Leaf (js ''12'')" if "(js ''01'', v') \<in> set es" for v'
      using that by (intro u01) (simp add: in_es)
  qed
  have g54: "obj_get M (js ''54'') = Some (reread (Leaf (replace_dot00 (toFixed2 amount))))"
    unfolding M_def
  proof (rule obj_get_foldl_same)
    show "(js ''54'', Leaf (replace_dot00 (toFixed2 amount))) \<in> set es"
      using m54 tag_literals by (simp add: in_es)
    show "v' = Leaf (replace_dot00 (toFixed2 amount))" if "(js ''54'', v') \<in> set es" for v'
      using that by (intro u54) (simp add: in_es)
  qed
  have g62: "obj_get M (js ''62'') = Some (reread (Composite addl'))"
    unfolding M_def
  proof (rule obj_get_foldl_same)
    show "(js ''62'', Composite addl') \<in> set es"
      using m62 tag_literals by (simp add: in_es)
    show "v' = Composite addl'" if "(js ''62'', v') \<in> set es" for v'
      using that by (intro u62) (simp add: in_es)
  qed
  define sub where "sub = foldl (\<lambda>m e. obj_set m (fst e) (reread (snd e))) [] addl'"
  have s01: "obj_get sub (js ''01'') = Some (reread (Leaf reference))"
    unfolding sub_def addl'_def
  proof (rule obj_get_foldl_same)
    show "(js ''01'', Leaf reference) \<in> set (obj_set addl (js ''01'') (Leaf reference))"
      by (rule in_obj_set)
    show "v' = Leaf reference"
      if "(js ''01'', v') \<in> set (obj_set addl (js ''01'') (Leaf reference))" for v'
      using that by (rule in_obj_set_same)
  qed
  from g01 g54 g62 s01 tag_literals
  have "obj_get (obj_set M (js ''63'') (Leaf C)) (js ''01'') = Some (Leaf (js ''12''))"
    "obj_get (obj_set M (js ''63'') (Leaf C)) (js ''54'') =
      Some (Leaf (replace_dot00 (toFixed2 amount)))"
    "obj_get (obj_set M (js ''63'') (Leaf C)) (js ''62'') = Some (Composite sub)"
    "obj_get sub (js ''01'') = Some (Leaf reference)"
    by (simp_all add: obj_get_obj_set sub_def)
  with out r buildEmv_trailer [of lc T] show ?thesis
    by (intro exI [of _ "buildEmv lc T"] exI [of _ "obj_set M (js ''63'') (Leaf C)"]
        exI [of _ sub]) simp
qed

text \<open>
  Claim C1, as the code has it. Let the parse of the base payload return, and let every
  field of the tree handed to the builder fit its two-digit length, with no tag
  \<^verbatim>\<open>'63'\<close> inside a nested object (\<open>fits_entry\<close>, for all entries but the top-level
  \<^verbatim>\<open>'63'\<close>, which the builder drops). Then
  \<^verbatim>\<open>generateDynamicQRISPayload(basePayload, 15000, "ORD-001")\<close> returns a payload that
  parses again, with \<^verbatim>\<open>"12"\<close> under tag \<^verbatim>\<open>'01'\<close>, \<^verbatim>\<open>"15000"\<close> under tag \<^verbatim>\<open>'54'\<close> and
  under tag \<^verbatim>\<open>'62'\<close> an object whose sub-tag \<^verbatim>\<open>'01'\<close> holds \<^verbatim>\<open>"ORD-001"\<close>; and the
  payload ends in \<^verbatim>\<open>6304\<close> and four characters that are the uppercased
  \<^verbatim>\<open>crc16Ccitt\<close> of all that stands before them.
\<close>

theorem generateDynamic_reparse:
  assumes "parseEmv basePayload = Some emv"
    and "list_all fits_entry
      (filter (\<lambda>e. fst e \<noteq> js ''63'') (dynamic_tree emv 15000 (Some (js ''ORD-001''))))"
  shows "\<exists>out r sub.
    generateDynamicQRISPayload lc basePayload 15000 (Some (js ''ORD-001'')) = Some out \<and>
    parseEmv out = Some r \<and>
    obj_get r (js ''01'') = Some (Leaf (js ''12'')) \<and>
    obj_get r (js ''54'') = Some (Leaf (js ''15000'')) \<and>
    obj_get r (js ''62'') = Some (Composite sub) \<and>
    obj_get sub (js ''01'') = Some (Leaf (js ''ORD-001'')) \<and>
    drop (length out - 4) out = toUpperCase (crc16Ccitt (take (length out - 4) out)) \<and>
    take 4 (drop (length out - 8) out) = js ''6304''"
proof -
  have "js ''ORD-001'' \<noteq> []" by (simp add: js_def)
  from generate_reparse [OF assms this, of lc] show ?thesis
    by (simp add: toFixed2_examples)
qed

lemma parse_qris_sample: "parseEmv qris_sample = Some qris_sample_tree"
  by (simp add: qris_sample_def qris_sample_tree_def parse_eval)

lemma dynamic_qris_sample:
  "dynamic_tree qris_sample_tree 15000 (Some (js ''ORD-001'')) =
    [(js ''26'', Composite [(js ''00'', Leaf (js ''ID.DANA.WWW'')),
        (js ''01'', Leaf (js ''936009153022591481'')), (js ''02'', Leaf (js ''022591481'')),
        (js ''03'', Leaf (js ''UMI''))]),
     (js ''51'', Composite [(js ''00'', Leaf (js ''ID.CO.QRIS.WWW'')),
        (js ''02'', Leaf (js ''ID1020017611473'')), (js ''03'', Leaf (js ''UMI''))]),
     (js ''52'', Leaf (js ''5812'')), (js ''53'', Leaf (js ''360'')), (js ''54'', Leaf (js ''15000'')),
     (js ''58'', Leaf (js ''ID'')),
     (js ''59'', Leaf (js ''Warung Sayur Bu Sugeng'')), (js ''60'', Leaf (js ''Kab. Demak'')),
     (js ''61'', Leaf (js ''59567'')), (js ''62'', Composite [(js ''01'', Leaf (js ''ORD-001''))]),
     (js ''63'', Leaf (js ''58C7'')),
     (js ''00'', Leaf (js ''01'')), (js ''01'', Leaf (js ''12''))]"
  by (simp add: qris_sample_tree_def generate_eval js_eval)

theorem generateDynamic_reparse_witness:
  "parseEmv qris_sample = Some qris_sample_tree \<and>
   list_all fits_entry (filter (\<lambda>e. fst e \<noteq> js ''63'')
     (dynamic_tree qris_sample_tree 15000 (Some (js ''ORD-001'')))) \<and>
   (\<exists>out r sub.
    generateDynamicQRISPayload localeCompare_root qris_sample 15000 (Some (js ''ORD-001'')) =
      Some out \<and>
    parseEmv out = Some r \<and>
    obj_get r (js ''01'') = Some (Leaf (js ''12'')) \<and>
    obj_get r (js ''54'') = Some (Leaf (js ''15000'')) \<and>
    obj_get r (js ''62'') = Some (Composite sub) \<and>
    obj_get sub (js ''01'') = Some (Leaf (js ''ORD-001'')) \<and>
    drop (length out - 4) out = toUpperCase (crc16Ccitt (take (length out - 4) out)) \<and>
    take 4 (drop (length out - 8) out) = js ''6304'')"
proof -
  have f: "list_all fits_entry (filter (\<lambda>e. fst e \<noteq> js ''63'')
     (dynamic_tree qris_sample_tree 15000 (Some (js ''ORD-001''))))"
    unfolding dynamic_qris_sample by (simp add: field_eval js_def)
  from generateDynamic_reparse [OF parse_qris_sample f, of localeCompare_root]
    parse_qris_sample f
  show ?thesis by blast
qed

lemma reparse_long_tag62:
  "generateDynamicQRISPayload localeCompare_root (js ''62950591AAAAAAAAAAAAAAAAAAAAAAAAAAAAAAAAAAAAAAAAAAAAAAAAAAAAAAAAAAAAAAAAAAAAAAAAAAAAAAAAAAAAAAAAAAA'') 15000
     (Some (js ''ORD-001'')) =
     Some (js ''010212540515000621060591AAAAAAAAAAAAAAAAAAAAAAAAAAAAAAAAAAAAAAAAAAAAAAAAAAAAAAAAAAAAAAAAAAAAAAAAAAAAAAAAAAAAAAAAAAA0107ORD-00163047E64'') \<and>
   parseEmv (js ''010212540515000621060591AAAAAAAAAAAAAAAAAAAAAAAAAAAAAAAAAAAAAAAAAAAAAAAAAAAAAAAAAAAAAAAAAAAAAAAAAAAAAAAAAAAAAAAAAAA0107ORD-00163047E64'') =
     Some [(js ''54'', Leaf (js ''15000'')),
           (js ''62'', Composite [(js ''60'', Leaf (js ''1AAAAA''))]),
           (js ''01'', Leaf (js ''12'')), (js ''AA'', Leaf [])]"
proof -
  have p: "parseEmv (js ''62950591AAAAAAAAAAAAAAAAAAAAAAAAAAAAAAAAAAAAAAAAAAAAAAAAAAAAAAAAAAAAAAAAAAAAAAAAAAAAAAAAAAAAAAAAAAA'') =
      Some [(js ''62'', Composite [(js ''05'', Leaf (js ''AAAAAAAAAAAAAAAAAAAAAAAAAAAAAAAAAAAAAAAAAAAAAAAAAAAAAAAAAAAAAAAAAAAAAAAAAAAAAAAAAAAAAAAAAAA''))])]"
    by (simp add: parse_eval)
  have t: "dynamic_tree [(js ''62'', Composite [(js ''05'', Leaf (js ''AAAAAAAAAAAAAAAAAAAAAAAAAAAAAAAAAAAAAAAAAAAAAAAAAAAAAAAAAAAAAAAAAAAAAAAAAAAAAAAAAAAAAAAAAAA''))])] 15000
      (Some (js ''ORD-001'')) =
     [(js ''54'', Leaf (js ''15000'')),
      (js ''62'', Composite [(js ''05'', Leaf (js ''AAAAAAAAAAAAAAAAAAAAAAAAAAAAAAAAAAAAAAAAAAAAAAAAAAAAAAAAAAAAAAAAAAAAAAAAAAAAAAAAAAAAAAAAAAA'')), (js ''01'', Leaf (js ''ORD-001''))]),
      (js ''01'', Leaf (js ''12''))]"
    by (simp add: generate_eval js_eval)
  have e: "buildEmv_entries localeCompare_root
      [(js ''54'', Leaf (js ''15000'')),
       (js ''62'', Composite [(js ''05'', Leaf (js ''AAAAAAAAAAAAAAAAAAAAAAAAAAAAAAAAAAAAAAAAAAAAAAAAAAAAAAAAAAAAAAAAAAAAAAAAAAAAAAAAAAAAAAAAAAA'')), (js ''01'', Leaf (js ''ORD-001''))]),
       (js ''01'', Leaf (js ''12''))] =
     [(js ''01'', Leaf (js ''12'')), (js ''54'', Leaf (js ''15000'')),
      (js ''62'', Composite [(js ''05'', Leaf (js ''AAAAAAAAAAAAAAAAAAAAAAAAAAAAAAAAAAAAAAAAAAAAAAAAAAAAAAAAAAAAAAAAAAAAAAAAAAAAAAAAAAAAAAAAAAA'')), (js ''01'', Leaf (js ''ORD-001''))])]"
    by (simp add: sort_eval js_def)
  have f: "concat (map field [(js ''01'', Leaf (js ''12'')), (js ''54'', Leaf (js ''15000'')),
      (js ''62'', Composite [(js ''05'', Leaf (js ''AAAAAAAAAAAAAAAAAAAAAAAAAAAAAAAAAAAAAAAAAAAAAAAAAAAAAAAAAAAAAAAAAAAAAAAAAAAAAAAAAAAAAAAAAAA'')), (js ''01'', Leaf (js ''ORD-001''))])]) =
      js ''010212540515000621060591AAAAAAAAAAAAAAAAAAAAAAAAAAAAAAAAAAAAAAAAAAAAAAAAAAAAAAAAAAAAAAAAAAAAAAAAAAAAAAAAAAAAAAAAAAA0107ORD-001''"
    by (simp add: field_eval js_def)
  have c: "toUpperCase (crc16Ccitt (js ''010212540515000621060591AAAAAAAAAAAAAAAAAAAAAAAAAAAAAAAAAAAAAAAAAAAAAAAAAAAAAAAAAAAAAAAAAAAAAAAAAAAAAAAAAAAAAAAAAAA0107ORD-001'' @ js ''6304'')) =
      js ''7E64''"
    by (simp add: crc_eval js_def)
  have "generateDynamicQRISPayload localeCompare_root (js ''62950591AAAAAAAAAAAAAAAAAAAAAAAAAAAAAAAAAAAAAAAAAAAAAAAAAAAAAAAAAAAAAAAAAAAAAAAAAAAAAAAAAAAAAAAAAAA'') 15000
     (Some (js ''ORD-001'')) = Some (js ''010212540515000621060591AAAAAAAAAAAAAAAAAAAAAAAAAAAAAAAAAAAAAAAAAAAAAAAAAAAAAAAAAAAAAAAAAAAAAAAAAAAAAAAAAAAAAAAAAAA0107ORD-00163047E64'')"
    by (simp only: generateDynamicQRISPayload_def p Option.bind.simps t buildEmv_shape e f c)
      (simp add: js_def)
  moreover have "parseEmv (js ''010212540515000621060591AAAAAAAAAAAAAAAAAAAAAAAAAAAAAAAAAAAAAAAAAAAAAAAAAAAAAAAAAAAAAAAAAAAAAAAAAAAAAAAAAAAAAAAAAAA0107ORD-00163047E64'') =
     Some [(js ''54'', Leaf (js ''15000'')),
           (js ''62'', Composite [(js ''60'', Leaf (js ''1AAAAA''))]),
           (js ''01'', Leaf (js ''12'')), (js ''AA'', Leaf [])]"
    by (simp add: parse_eval)
  ultimately show ?thesis by simp
qed

text \<open>
  Without the condition the claim fails. In the base payload \<^verbatim>\<open>"62086304ABCD"\<close> tag
  \<^verbatim>\<open>'62'\<close> holds a sub-tag \<^verbatim>\<open>'63'\<close>: it is emitted before the reference, and the parser
  stops reading the nested value at it, so that the payload returned has no sub-tag
  \<^verbatim>\<open>'01'\<close> under tag \<^verbatim>\<open>'62'\<close> when it is parsed again. In the second base payload tag
  \<^verbatim>\<open>'62'\<close> holds 95 characters: with the reference it holds 106, its length is written
  \<^verbatim>\<open>106\<close> and read \<^verbatim>\<open>10\<close>, and neither the reference nor the trailer is read back.
\<close>

theorem generateDynamic_reparse_counterexample:
  "generateDynamicQRISPayload localeCompare_root (js ''62086304ABCD'') 15000
     (Some (js ''ORD-001'')) = Some (js ''01021254051500062196304ABCD0107ORD-00163044A8A'') \<and>
   parseEmv (js ''01021254051500062196304ABCD0107ORD-00163044A8A'') =
     Some [(js ''54'', Leaf (js ''15000'')),
           (js ''62'', Composite [(js ''63'', Leaf (js ''ABCD''))]),
           (js ''63'', Leaf (js ''4A8A'')), (js ''01'', Leaf (js ''12''))] \<and>
   obj_get [(js ''63'', Leaf (js ''ABCD''))] (js ''01'') = None \<and>
   generateDynamicQRISPayload localeCompare_root (js ''62950591AAAAAAAAAAAAAAAAAAAAAAAAAAAAAAAAAAAAAAAAAAAAAAAAAAAAAAAAAAAAAAAAAAAAAAAAAAAAAAAAAAAAAAAAAAA'') 15000
     (Some (js ''ORD-001'')) =
     Some (js ''010212540515000621060591AAAAAAAAAAAAAAAAAAAAAAAAAAAAAAAAAAAAAAAAAAAAAAAAAAAAAAAAAAAAAAAAAAAAAAAAAAAAAAAAAAAAAAAAAAA0107ORD-00163047E64'') \<and>
   parseEmv (js ''010212540515000621060591AAAAAAAAAAAAAAAAAAAAAAAAAAAAAAAAAAAAAAAAAAAAAAAAAAAAAAAAAAAAAAAAAAAAAAAAAAAAAAAAAAAAAAAAAAA0107ORD-00163047E64'') =
     Some [(js ''54'', Leaf (js ''15000'')),
           (js ''62'', Composite [(js ''60'', Leaf (js ''1AAAAA''))]),
           (js ''01'', Leaf (js ''12'')), (js ''AA'', Leaf [])]"
proof -
  have p: "parseEmv (js ''62086304ABCD'') =
      Some [(js ''62'', Composite [(js ''63'', Leaf (js ''ABCD''))])]"
    by (simp add: parse_eval)
  have t: "dynamic_tree [(js ''62'', Composite [(js ''63'', Leaf (js ''ABCD''))])] 15000
      (Some (js ''ORD-001'')) =
     [(js ''54'', Leaf (js ''15000'')),
      (js ''62'', Composite [(js ''63'', Leaf (js ''ABCD'')), (js ''01'', Leaf (js ''ORD-001''))]),
      (js ''01'', Leaf (js ''12''))]"
    by (simp add: generate_eval js_eval)
  have e: "buildEmv_entries localeCompare_root
      [(js ''54'', Leaf (js ''15000'')),
       (js ''62'', Composite [(js ''63'', Leaf (js ''ABCD'')), (js ''01'', Leaf (js ''ORD-001''))]),
       (js ''01'', Leaf (js ''12''))] =
     [(js ''01'', Leaf (js ''12'')), (js ''54'', Leaf (js ''15000'')),
      (js ''62'', Composite [(js ''63'', Leaf (js ''ABCD'')), (js ''01'', Leaf (js ''ORD-001''))])]"
    by (simp add: sort_eval js_def)
  have f: "concat (map field [(js ''01'', Leaf (js ''12'')), (js ''54'', Leaf (js ''15000'')),
      (js ''62'', Composite [(js ''63'', Leaf (js ''ABCD'')), (js ''01'', Leaf (js ''ORD-001''))])]) =
      js ''01021254051500062196304ABCD0107ORD-001''"
    by (simp add: field_eval js_def)
  have c: "toUpperCase (crc16Ccitt (js ''01021254051500062196304ABCD0107ORD-001'' @ js ''6304'')) =
      js ''4A8A''"
    by (simp add: crc_eval js_def)
  have "generateDynamicQRISPayload localeCompare_root (js ''62086304ABCD'') 15000
     (Some (js ''ORD-001'')) = Some (js ''01021254051500062196304ABCD0107ORD-00163044A8A'')"
    by (simp only: generateDynamicQRISPayload_def p Option.bind.simps t buildEmv_shape e f c)
      (simp add: js_def)
  moreover have "parseEmv (js ''01021254051500062196304ABCD0107ORD-00163044A8A'') =
     Some [(js ''54'', Leaf (js ''15000'')),
           (js ''62'', Composite [(js ''63'', Leaf (js ''ABCD''))]),
           (js ''63'', Leaf (js ''4A8A'')), (js ''01'', Leaf (js ''12''))]"
    by (simp add: parse_eval)
  moreover have "obj_get [(js ''63'', Leaf (js ''ABCD''))] (js ''01'') = None"
    by (simp add: js_eval)
  ultimately show ?thesis
    using reparse_long_tag62 by simp
qed

subsection \<open>Building, then parsing\<close>

lemma own_order_prefix: "own_order (xs @ ys) \<Longrightarrow> own_order xs"
  by (induction xs rule: own_order.induct) (auto split: option.splits)

lemma own_order_before_index:
  "own_order (ks @ [k]) \<Longrightarrow> toArrayIndex k = Some n \<Longrightarrow> k' \<in> set ks \<Longrightarrow>
   \<exists>n'. toArrayIndex k' = Some n' \<and> n' < n"
proof (induction ks arbitrary: k')
  case Nil
  then show ?case by simp
next
  case (Cons a ks)
  show ?case
  proof (cases ks)
    case Nil
    with Cons.prems show ?thesis
      by (auto split: option.splits)
  next
    case (Cons b ks')
    from Cons.prems(1) have tail: "own_order (ks @ [k])"
      by (simp add: Cons)
    from Cons.IH [OF tail Cons.prems(2), of b] obtain nb
      where b: "toArrayIndex b = Some nb" "nb < n"
      by (auto simp: Cons)
    with Cons.prems(1) obtain na where a: "toArrayIndex a = Some na" "na < nb"
      by (auto simp: Cons split: option.splits)
    show ?thesis
    proof (cases "k' = a")
      case True
      with a b show ?thesis by auto
    next
      case False
      with Cons.prems(3) have "k' \<in> set ks" by simp
      from Cons.IH [OF tail Cons.prems(2) this] show ?thesis .
    qed
  qed
qed

lemma insert_index_at_end:
  "(\<And>e. e \<in> set m \<Longrightarrow> \<exists>n'. toArrayIndex (fst e) = Some n' \<and> n' < n) \<Longrightarrow>
   insert_index n kv m = m @ [kv]"
proof (induction m)
  case Nil
  then show ?case by simp
next
  case (Cons x m)
  from Cons.prems [of x] obtain n' where "toArrayIndex (fst x) = Some n'" "n' < n"
    by auto
  moreover have "insert_index n kv m = m @ [kv]"
    by (rule Cons.IH) (simp add: Cons.prems)
  ultimately show ?case by simp
qed

lemma obj_set_at_end:
  assumes "distinct (map fst m @ [k])" and "own_order (map fst m @ [k])"
  shows "obj_set m k v = m @ [(k, v)]"
proof (cases "toArrayIndex k")
  case None
  with assms(1) show ?thesis
    by (simp add: obj_set_def)
next
  case (Some n)
  have "insert_index n (k, v) m = m @ [(k, v)]"
  proof (rule insert_index_at_end)
    fix e assume "e \<in> set m"
    then have "fst e \<in> set (map fst m)" by simp
    from own_order_before_index [OF assms(2) Some this]
    show "\<exists>n'. toArrayIndex (fst e) = Some n' \<and> n' < n" .
  qed
  with assms(1) Some show ?thesis
    by (simp add: obj_set_def)
qed

lemma foldl_obj_set_ordered:
  assumes "distinct (map fst (acc @ es))" and "own_order (map fst (acc @ es))"
  shows "foldl (\<lambda>m e. obj_set m (fst e) (g (snd e))) acc es =
     acc @ map (\<lambda>e. (fst e, g (snd e))) es"
  using assms
proof (induction es arbitrary: acc)
  case Nil
  then show ?case by simp
next
  case (Cons e es)
  have keys: "map fst (acc @ e # es) = (map fst acc @ [fst e]) @ map fst es"
    by simp
  from Cons.prems(1) have "distinct (map fst acc @ [fst e])"
    unfolding keys by simp
  moreover from Cons.prems(2) have "own_order (map fst acc @ [fst e])"
    unfolding keys by (rule own_order_prefix)
  ultimately
  have step: "obj_set acc (fst e) (g (snd e)) = acc @ [(fst e, g (snd e))]"
    by (rule obj_set_at_end)
  have "foldl (\<lambda>m e. obj_set m (fst e) (g (snd e))) (acc @ [(fst e, g (snd e))]) es =
      (acc @ [(fst e, g (snd e))]) @ map (\<lambda>e. (fst e, g (snd e))) es"
    using Cons.prems by (intro Cons.IH) simp_all
  then show ?case
    by (simp add: step)
qed

lemma reread_ordered: "ordered_entry (t, v) \<Longrightarrow> reread v = v"
proof (induction v arbitrary: t)
  case (Leaf s)
  then show ?case by simp
next
  case (Composite sub)
  then have d: "distinct (map fst ([] @ sub))" and o: "own_order (map fst ([] @ sub))"
    and sub: "list_all ordered_entry sub" by simp_all
  have "map (\<lambda>e. (fst e, reread (snd e))) sub = sub"
  proof (rule map_idI)
    fix e assume e: "e \<in> set sub"
    with sub have "ordered_entry (fst e, snd e)" by (simp add: list_all_iff)
    with Composite.IH [of e "snd e" "fst e"] e show "(fst e, reread (snd e)) = e"
      by (cases e) auto
  qed
  with foldl_obj_set_ordered [OF d o, of reread] show ?case
    by simp
qed

text \<open>
  Claim C2, as the code has it. Let \<open>t\<close> be a tree with distinct tags and no tag
  \<^verbatim>\<open>'63'\<close> at any level, in which every tag matches the tag pattern, the value of a tag
  is an object exactly when the tag is \<^verbatim>\<open>'62'\<close> or a number from 26 to 51
  (\<open>parsed_entry\<close>), every value is built in at most 99 characters (\<open>fits_entry\<close>), and
  every nested object lists its keys in an order of enumeration (\<open>ordered_entry\<close>). Then
  \<^verbatim>\<open>parseEmv(buildEmv(t))\<close> returns a tree that has under every tag other than \<^verbatim>\<open>'63'\<close>
  what \<open>t\<close> has there (the nested objects entry for entry, in the same order), and
  under tag \<^verbatim>\<open>'63'\<close> one more entry: the checksum that the builder computed. The tags
  need not be sorted, at any level.
\<close>

theorem parse_build_roundtrip:
  assumes parsed: "list_all parsed_entry t"
    and fits: "list_all fits_entry t"
    and ordered: "list_all ordered_entry t"
    and no63: "js ''63'' \<notin> fst ` set t"
    and dist: "distinct (map fst t)"
  shows "\<exists>r. parseEmv (buildEmv lc t) = Some r \<and>
    (\<forall>k. obj_get r k =
      (if k = js ''63''
       then Some (Leaf (toUpperCase (crc16Ccitt
              (take (length (buildEmv lc t) - 4) (buildEmv lc t)))))
       else obj_get t k))"
proof -
  define es where "es = buildEmv_entries lc t"
  define M where "M = foldl (\<lambda>m e. obj_set m (fst e) (reread (snd e))) [] es"
  define C where "C = toUpperCase (crc16Ccitt (concat (map field es) @ js ''6304''))"
  have set_es: "set es = set t"
    using no63 by (force simp: es_def set_buildEmv_entries)
  have rb: "reads_back e" if "e \<in> set t" "fst e \<noteq> js ''63''" for e
  proof -
    from that parsed fits have "parsed_entry e" "fits_entry e"
      by (simp_all add: list_all_iff)
    with that(2) reads_back_deep [of "fst e" "snd e"] show ?thesis by simp
  qed
  have r: "parseEmv (buildEmv lc t) = Some (obj_set M (js ''63'') (Leaf C))"
    unfolding M_def C_def es_def by (rule parseEmv_buildEmv) (rule rb)
  have C: "C = toUpperCase (crc16Ccitt (take (length (buildEmv lc t) - 4) (buildEmv lc t)))"
  proof -
    have "length C = 4"
      by (simp add: C_def toUpperCase_def crc16Ccitt_length)
    moreover have "buildEmv lc t = (concat (map field es) @ js ''6304'') @ C"
      by (simp add: buildEmv_shape es_def C_def)
    ultimately have "take (length (buildEmv lc t) - 4) (buildEmv lc t) =
        concat (map field es) @ js ''6304''"
      by simp
    then show ?thesis by (simp add: C_def)
  qed
  have "obj_get M k = obj_get t k" for k
  proof (cases "k \<in> fst ` set t")
    case False
    then have "obj_get M k = obj_get [] k"
      unfolding M_def by (intro obj_get_foldl_other) (simp add: set_es)
    also have "\<dots> = None"
      by (simp add: obj_get_def)
    also from False have "None = obj_get t k"
      by (simp add: obj_get_def map_of_eq_None_iff [symmetric] eq_commute [of None])
    finally show ?thesis .
  next
    case True
    then obtain v where v: "(k, v) \<in> set t" by auto
    with dist have t: "obj_get t k = Some v"
      by (simp add: obj_get_def)
    have u: "v' = v" if "(k, v') \<in> set t" for v'
      using that v dist by (meson eq_key_imp_eq_value)
    from v ordered have "ordered_entry (k, v)" by (simp add: list_all_iff)
    then have "reread v = v" by (rule reread_ordered)
    moreover have "obj_get M k = Some (reread v)"
      unfolding M_def by (rule obj_get_foldl_same) (simp_all add: set_es v u)
    ultimately show ?thesis by (simp add: t)
  qed
  then have "obj_get (obj_set M (js ''63'') (Leaf C)) k =
      (if k = js ''63'' then Some (Leaf C) else obj_get t k)" for k
    by (simp add: obj_get_obj_set)
  with r C show ?thesis by simp
qed

theorem parse_build_roundtrip_witness:
  "parseEmv (buildEmv localeCompare_root
     [(js ''26'', Composite [(js ''00'', Leaf (js ''ID'')), (js ''01'', Leaf (js ''9360''))]),
      (js ''54'', Leaf (js ''1'')), (js ''00'', Leaf (js ''01''))]) =
   Some [(js ''26'', Composite [(js ''00'', Leaf (js ''ID'')), (js ''01'', Leaf (js ''9360''))]),
         (js ''54'', Leaf (js ''1'')), (js ''63'', Leaf (js ''888F'')), (js ''00'', Leaf (js ''01''))] \<and>
   (\<exists>r. parseEmv (buildEmv localeCompare_root
     [(js ''26'', Composite [(js ''00'', Leaf (js ''ID'')), (js ''01'', Leaf (js ''9360''))]),
      (js ''54'', Leaf (js ''1'')), (js ''00'', Leaf (js ''01''))]) = Some r \<and>
     obj_get r (js ''26'') =
       Some (Composite [(js ''00'', Leaf (js ''ID'')), (js ''01'', Leaf (js ''9360''))]) \<and>
     obj_get r (js ''54'') = Some (Leaf (js ''1'')) \<and>
     obj_get r (js ''00'') = Some (Leaf (js ''01'')))"
proof -
  let ?t = "[(js ''26'', Composite [(js ''00'', Leaf (js ''ID'')), (js ''01'', Leaf (js ''9360''))]),
      (js ''54'', Leaf (js ''1'')), (js ''00'', Leaf (js ''01''))]"
  have p: "list_all parsed_entry ?t"
    by (simp add: js_eval)
  have f: "list_all fits_entry ?t"
    by (simp add: field_eval js_def)
  have ord: "list_all ordered_entry ?t"
    by (simp add: js_eval)
  have n: "js ''63'' \<notin> fst ` set ?t"
    by (simp add: js_def)
  have d: "distinct (map fst ?t)"
    by (simp add: js_def)
  have e: "buildEmv_entries localeCompare_root ?t =
      [(js ''00'', Leaf (js ''01'')),
       (js ''26'', Composite [(js ''00'', Leaf (js ''ID'')), (js ''01'', Leaf (js ''9360''))]),
       (js ''54'', Leaf (js ''1''))]"
    by (simp add: sort_eval js_def)
  have c: "concat (map field [(js ''00'', Leaf (js ''01'')),
       (js ''26'', Composite [(js ''00'', Leaf (js ''ID'')), (js ''01'', Leaf (js ''9360''))]),
       (js ''54'', Leaf (js ''1''))]) = js ''00020126140002ID0104936054011''"
    by (simp add: field_eval js_def)
  have crc: "toUpperCase (crc16Ccitt (js ''00020126140002ID0104936054011'' @ js ''6304'')) =
      js ''888F''"
    by (simp add: crc_eval js_def)
  have b: "buildEmv localeCompare_root ?t = js ''00020126140002ID01049360540116304888F''"
    by (simp only: buildEmv_shape e c crc) (simp add: js_def)
  have v: "parseEmv (buildEmv localeCompare_root ?t) =
     Some [(js ''26'', Composite [(js ''00'', Leaf (js ''ID'')), (js ''01'', Leaf (js ''9360''))]),
         (js ''54'', Leaf (js ''1'')), (js ''63'', Leaf (js ''888F'')), (js ''00'', Leaf (js ''01''))]"
    unfolding b by (simp add: parse_eval)
  from parse_build_roundtrip [OF p f ord n d, of localeCompare_root]
  obtain r where r: "parseEmv (buildEmv localeCompare_root ?t) = Some r"
    and g: "\<And>k. obj_get r k =
      (if k = js ''63''
       then Some (Leaf (toUpperCase (crc16Ccitt
              (take (length (buildEmv localeCompare_root ?t) - 4)
                 (buildEmv localeCompare_root ?t)))))
       else obj_get ?t k)"
    by blast
  have "obj_get r (js ''26'') =
       Some (Composite [(js ''00'', Leaf (js ''ID'')), (js ''01'', Leaf (js ''9360''))])"
    "obj_get r (js ''54'') = Some (Leaf (js ''1''))"
    "obj_get r (js ''00'') = Some (Leaf (js ''01''))"
    unfolding g by (simp_all add: js_eval)
  with r v show ?thesis by blast
qed

lemma roundtrip_leaf_under_composite_tag: "buildEmv localeCompare_root [(js ''26'', Leaf (js ''x''))] = js ''2601x630424CD'' \<and>
   parseEmv (js ''2601x630424CD'') =
     Some [(js ''26'', Composite []), (js ''63'', Leaf (js ''24CD''))]"
proof -
  have e: "buildEmv_entries localeCompare_root [(js ''26'', Leaf (js ''x''))] =
      [(js ''26'', Leaf (js ''x''))]"
    by (simp add: sort_eval js_def)
  have c: "concat (map field [(js ''26'', Leaf (js ''x''))]) = js ''2601x''"
    by (simp add: field_eval js_def)
  have crc: "toUpperCase (crc16Ccitt (js ''2601x'' @ js ''6304'')) = js ''24CD''"
    by (simp add: crc_eval js_def)
  have "buildEmv localeCompare_root [(js ''26'', Leaf (js ''x''))] = js ''2601x630424CD''"
    by (simp only: buildEmv_shape e c crc) (simp add: js_def)
  moreover have "parseEmv (js ''2601x630424CD'') =
     Some [(js ''26'', Composite []), (js ''63'', Leaf (js ''24CD''))]"
    by (simp add: parse_eval)
  ultimately show ?thesis by simp
qed

lemma roundtrip_long_value: "buildEmv localeCompare_root [(js ''00'', Leaf (js ''AAAAAAAAAAAAAAAAAAAAAAAAAAAAAAAAAAAAAAAAAAAAAAAAAAAAAAAAAAAAAAAAAAAAAAAAAAAAAAAAAAAAAAAAAAAAAAAAAAAA''))] =
     js ''00100AAAAAAAAAAAAAAAAAAAAAAAAAAAAAAAAAAAAAAAAAAAAAAAAAAAAAAAAAAAAAAAAAAAAAAAAAAAAAAAAAAAAAAAAAAAAAAAAAAAA6304F5BE'' \<and>
   parseEmv (js ''00100AAAAAAAAAAAAAAAAAAAAAAAAAAAAAAAAAAAAAAAAAAAAAAAAAAAAAAAAAAAAAAAAAAAAAAAAAAAAAAAAAAAAAAAAAAAAAAAAAAAA6304F5BE'') =
     Some [(js ''00'', Leaf (js ''0AAAAAAAAA'')), (js ''AA'', Leaf [])]"
proof -
  have e: "buildEmv_entries localeCompare_root [(js ''00'', Leaf (js ''AAAAAAAAAAAAAAAAAAAAAAAAAAAAAAAAAAAAAAAAAAAAAAAAAAAAAAAAAAAAAAAAAAAAAAAAAAAAAAAAAAAAAAAAAAAAAAAAAAAA''))] =
      [(js ''00'', Leaf (js ''AAAAAAAAAAAAAAAAAAAAAAAAAAAAAAAAAAAAAAAAAAAAAAAAAAAAAAAAAAAAAAAAAAAAAAAAAAAAAAAAAAAAAAAAAAAAAAAAAAAA''))]"
    by (simp add: sort_eval js_def)
  have c: "concat (map field [(js ''00'', Leaf (js ''AAAAAAAAAAAAAAAAAAAAAAAAAAAAAAAAAAAAAAAAAAAAAAAAAAAAAAAAAAAAAAAAAAAAAAAAAAAAAAAAAAAAAAAAAAAAAAAAAAAA''))]) = js ''00100AAAAAAAAAAAAAAAAAAAAAAAAAAAAAAAAAAAAAAAAAAAAAAAAAAAAAAAAAAAAAAAAAAAAAAAAAAAAAAAAAAAAAAAAAAAAAAAAAAAA''"
    by (simp add: field_eval js_def)
  have crc: "toUpperCase (crc16Ccitt (js ''00100AAAAAAAAAAAAAAAAAAAAAAAAAAAAAAAAAAAAAAAAAAAAAAAAAAAAAAAAAAAAAAAAAAAAAAAAAAAAAAAAAAAAAAAAAAAAAAAAAAAA'' @ js ''6304'')) = js ''F5BE''"
    by (simp add: crc_eval js_def)
  have "buildEmv localeCompare_root [(js ''00'', Leaf (js ''AAAAAAAAAAAAAAAAAAAAAAAAAAAAAAAAAAAAAAAAAAAAAAAAAAAAAAAAAAAAAAAAAAAAAAAAAAAAAAAAAAAAAAAAAAAAAAAAAAAA''))] = js ''00100AAAAAAAAAAAAAAAAAAAAAAAAAAAAAAAAAAAAAAAAAAAAAAAAAAAAAAAAAAAAAAAAAAAAAAAAAAAAAAAAAAAAAAAAAAAAAAAAAAAA6304F5BE''"
    by (simp only: buildEmv_shape e c crc) (simp add: js_def)
  moreover have "parseEmv (js ''00100AAAAAAAAAAAAAAAAAAAAAAAAAAAAAAAAAAAAAAAAAAAAAAAAAAAAAAAAAAAAAAAAAAAAAAAAAAAAAAAAAAAAAAAAAAAAAAAAAAAA6304F5BE'') =
     Some [(js ''00'', Leaf (js ''0AAAAAAAAA'')), (js ''AA'', Leaf [])]"
    by (simp add: parse_eval)
  ultimately show ?thesis by simp
qed

text \<open>
  The result is never the tree itself: the parser stores the trailer under tag \<^verbatim>\<open>'63'\<close>.
  And the other entries are not always read back: a string under tag \<^verbatim>\<open>'26'\<close> comes back
  as an object, and a string of 100 characters is written with the length \<^verbatim>\<open>100\<close>, of
  which the parser reads \<^verbatim>\<open>10\<close>.
\<close>

theorem parse_build_roundtrip_counterexample:
  "buildEmv localeCompare_root [(js ''00'', Leaf (js ''01''))] = js ''0002016304AAE6'' \<and>
   parseEmv (js ''0002016304AAE6'') =
     Some [(js ''63'', Leaf (js ''AAE6'')), (js ''00'', Leaf (js ''01''))] \<and>
   obj_get [(js ''00'', Leaf (js ''01''))] (js ''63'') = None \<and>
   buildEmv localeCompare_root [(js ''26'', Leaf (js ''x''))] = js ''2601x630424CD'' \<and>
   parseEmv (js ''2601x630424CD'') =
     Some [(js ''26'', Composite []), (js ''63'', Leaf (js ''24CD''))] \<and>
   buildEmv localeCompare_root [(js ''00'', Leaf (js ''AAAAAAAAAAAAAAAAAAAAAAAAAAAAAAAAAAAAAAAAAAAAAAAAAAAAAAAAAAAAAAAAAAAAAAAAAAAAAAAAAAAAAAAAAAAAAAAAAAAA''))] =
     js ''00100AAAAAAAAAAAAAAAAAAAAAAAAAAAAAAAAAAAAAAAAAAAAAAAAAAAAAAAAAAAAAAAAAAAAAAAAAAAAAAAAAAAAAAAAAAAAAAAAAAAA6304F5BE'' \<and>
   parseEmv (js ''00100AAAAAAAAAAAAAAAAAAAAAAAAAAAAAAAAAAAAAAAAAAAAAAAAAAAAAAAAAAAAAAAAAAAAAAAAAAAAAAAAAAAAAAAAAAAAAAAAAAAA6304F5BE'') =
     Some [(js ''00'', Leaf (js ''0AAAAAAAAA'')), (js ''AA'', Leaf [])]"
proof -
  have e: "buildEmv_entries localeCompare_root [(js ''00'', Leaf (js ''01''))] =
      [(js ''00'', Leaf (js ''01''))]"
    by (simp add: sort_eval js_def)
  have c: "concat (map field [(js ''00'', Leaf (js ''01''))]) = js ''000201''"
    by (simp add: field_eval js_def)
  have crc: "toUpperCase (crc16Ccitt (js ''000201'' @ js ''6304'')) = js ''AAE6''"
    by (simp add: crc_eval js_def)
  have "buildEmv localeCompare_root [(js ''00'', Leaf (js ''01''))] = js ''0002016304AAE6''"
    by (simp only: buildEmv_shape e c crc) (simp add: js_def)
  moreover have "parseEmv (js ''0002016304AAE6'') =
     Some [(js ''63'', Leaf (js ''AAE6'')), (js ''00'', Leaf (js ''01''))]"
    by (simp add: parse_eval)
  moreover have "obj_get [(js ''00'', Leaf (js ''01''))] (js ''63'') = None"
    by (simp add: js_eval)
  ultimately show ?thesis
    using roundtrip_leaf_under_composite_tag roundtrip_long_value by simp
qed

end
